theory Spec2Isabelle
  imports Main "HOL-Library.Multiset" "HOL-Library.Sublist"
begin

section \<open>Comparators\<close>

text \<open>
  \<^verbatim>\<open>CompareFn<T> = (a: T, b: T) => number\<close>: only the sign of the result is ever read
  (\<^verbatim>\<open>< 0\<close>, \<^verbatim>\<open>> 0\<close>, \<^verbatim>\<open>>= 0\<close>, and \<^verbatim>\<open>c || d\<close>, which tests \<^verbatim>\<open>c\<close> against zero), so
  the result is an integer here.
\<close>

type_synonym 'a CompareFn = "'a \<Rightarrow> 'a \<Rightarrow> int"

type_synonym 'a KeyFn = "'a \<Rightarrow> int"

text \<open>
  \<^verbatim>\<open>defaultComparator\<close> is typed over \<^verbatim>\<open>any\<close> and compares with JavaScript's \<^verbatim>\<open><\<close>
  and \<^verbatim>\<open>>\<close>. What \<^verbatim>\<open><\<close> says of two values of the element type is the parameter
  \<open>lt\<close>; \<^verbatim>\<open>a > b\<close> is \<^verbatim>\<open>b < a\<close>. For numbers and strings \<open>lt\<close> is the order of
  the type.
\<close>

definition defaultComparator :: "('a \<Rightarrow> 'a \<Rightarrow> bool) \<Rightarrow> 'a CompareFn" where
  "defaultComparator lt a b = (if lt a b then - 1 else if lt b a then 1 else 0)"

text \<open>
  The contract the heap asks of its comparator: the sign flips when the arguments are
  swapped, and \<open>cmp a b \<le> 0\<close> is transitive. Totality and reflexivity follow.
\<close>

definition total_preorder :: "'a CompareFn \<Rightarrow> bool" where
  "total_preorder cmp \<longleftrightarrow>
     (\<forall>a b. (cmp a b < 0) = (0 < cmp b a)) \<and>
     (\<forall>a b c. cmp a b \<le> 0 \<longrightarrow> cmp b c \<le> 0 \<longrightarrow> cmp a c \<le> 0)"

section \<open>Invariant primitives\<close>

text \<open>
  The functions of \<^verbatim>\<open>heap.class.ts\<close> that work on a bare array. An array is a list, and a
  function that writes to its array returns the array it leaves behind. The parameters
  \<^verbatim>\<open>comparator\<close> and \<^verbatim>\<open>length\<close> of the source are \<open>cmp\<close> and \<open>length'\<close> here.

  Every caller passes the length of the array itself as \<^verbatim>\<open>length\<close>, so that the reads
  and writes of \<^verbatim>\<open>_siftDown\<close> stay in range; the value \<^verbatim>\<open>heap[index]\<close> it saves first
  is used only inside the loop, that is for \<open>index < length'\<close>.
\<close>

text \<open>
  The choice of \<^verbatim>\<open>smallestIndex\<close> in one round of \<^verbatim>\<open>_siftDown\<close>: the node itself, its left
  child when that one is strictly smaller, then the right child when it is strictly smaller
  than the one chosen so far.
\<close>

definition smallestIndex :: "'a CompareFn \<Rightarrow> 'a list \<Rightarrow> nat \<Rightarrow> nat \<Rightarrow> nat" where
  "smallestIndex cmp heap length' index =
     (let left = 2 * index + 1;
          right = left + 1;
          s = index;
          s = (if left < length' \<and> cmp (heap ! left) (heap ! s) < 0 then left else s);
          s = (if right < length' \<and> cmp (heap ! right) (heap ! s) < 0 then right else s)
      in s)"

lemma smallestIndex_cases:
  "smallestIndex cmp heap length' index = index \<or>
   smallestIndex cmp heap length' index = 2 * index + 1 \<and> 2 * index + 1 < length' \<or>
   smallestIndex cmp heap length' index = 2 * index + 2 \<and> 2 * index + 2 < length'"
  by (auto simp: smallestIndex_def Let_def)

function siftDown_loop :: "'a CompareFn \<Rightarrow> 'a \<Rightarrow> nat \<Rightarrow> 'a list \<Rightarrow> nat \<Rightarrow> 'a list" where
  "siftDown_loop cmp item length' heap index =
     (if index < length' then
        (let s = smallestIndex cmp heap length' index
         in if s = index then heap
            else siftDown_loop cmp item length' (heap[index := heap ! s, s := item]) s)
      else heap)"
  by pat_completeness auto
termination
proof (relation "measure (\<lambda>(cmp, item, length', heap, index). length' - index)")
  show "wf (measure (\<lambda>(cmp, item, length', heap, index). length' - index))"
    by simp
next
  fix cmp :: "'a CompareFn" and item :: 'a and length' :: nat and heap :: "'a list"
    and index s :: nat
  assume "index < length'" and s: "s = smallestIndex cmp heap length' index" and "s \<noteq> index"
  with smallestIndex_cases [of cmp heap length' index]
  show "((cmp, item, length', heap[index := heap ! s, s := item], s),
         (cmp, item, length', heap, index))
        \<in> measure (\<lambda>(cmp, item, length', heap, index). length' - index)"
    by auto
qed

declare siftDown_loop.simps [simp del]

definition siftDown :: "'a list \<Rightarrow> nat \<Rightarrow> nat \<Rightarrow> 'a CompareFn \<Rightarrow> 'a list" where
  "siftDown heap index length' cmp = siftDown_loop cmp (heap ! index) length' heap index"

function siftUp_loop :: "'a CompareFn \<Rightarrow> 'a \<Rightarrow> 'a list \<Rightarrow> nat \<Rightarrow> 'a list" where
  "siftUp_loop cmp item heap index =
     (if 0 < index then
        (let parentIndex = (index - 1) div 2
         in if cmp item (heap ! parentIndex) \<ge> 0 then heap[index := item]
            else siftUp_loop cmp item (heap[index := heap ! parentIndex]) parentIndex)
      else heap[index := item])"
  by pat_completeness auto
termination
  by (relation "measure (\<lambda>(cmp, item, heap, index). index)") auto

declare siftUp_loop.simps [simp del]

definition siftUp :: "'a list \<Rightarrow> nat \<Rightarrow> 'a CompareFn \<Rightarrow> 'a list" where
  "siftUp heap index cmp = siftUp_loop cmp (heap ! index) heap index"

text \<open>
  \<^verbatim>\<open>_heapify\<close> counts \<^verbatim>\<open>i\<close> from \<^verbatim>\<open>floor(length / 2) - 1\<close> down to \<^verbatim>\<open>0\<close>; the loop below
  carries \<open>k = i + 1\<close>, so that the exit \<^verbatim>\<open>i = -1\<close> is \<open>k = 0\<close>.
\<close>

fun heapify_loop :: "'a CompareFn \<Rightarrow> 'a list \<Rightarrow> nat \<Rightarrow> 'a list" where
  "heapify_loop cmp items 0 = items"
| "heapify_loop cmp items (Suc i) =
     heapify_loop cmp (siftDown items i (length items) cmp) i"

definition heapify :: "'a list \<Rightarrow> 'a CompareFn \<Rightarrow> 'a list" where
  "heapify items cmp = heapify_loop cmp items (length items div 2)"

text \<open>
  \<^verbatim>\<open>_replace\<close>: the write \<^verbatim>\<open>heap[0] = item\<close> on an empty array makes it the one-element
  array, as a JavaScript array grows on a write at its length.
\<close>

definition replace :: "'a list \<Rightarrow> 'a \<Rightarrow> 'a CompareFn \<Rightarrow> 'a option \<times> 'a list" where
  "replace heap item cmp =
     (let returnitem = (if length heap \<noteq> 0 then Some (heap ! 0) else None);
          heap = (if heap = [] then [item] else heap[0 := item])
      in (returnitem, siftDown heap 0 (length heap) cmp))"

section \<open>The heap invariant\<close>

text \<open>
  The backing array read as a complete binary tree: every node compares \<open>\<le> 0\<close> against
  each of its children (at \<open>2 * i + 1\<close> and \<open>2 * i + 2\<close>) that is in range.
\<close>

definition heap_inv :: "'a CompareFn \<Rightarrow> 'a list \<Rightarrow> bool" where
  "heap_inv cmp heap \<longleftrightarrow>
     (\<forall>i<length heap.
        (2 * i + 1 < length heap \<longrightarrow> cmp (heap ! i) (heap ! (2 * i + 1)) \<le> 0) \<and>
        (2 * i + 2 < length heap \<longrightarrow> cmp (heap ! i) (heap ! (2 * i + 2)) \<le> 0))"

text \<open>
  The weaker invariants that hold while a sift is under way: \<open>heap_from\<close> asks the order
  only of the nodes from \<open>k\<close> on (the part \<^verbatim>\<open>_heapify\<close> has already built),
  \<open>down_inv\<close> and \<open>up_inv\<close> leave out the node (respectively the edge above the node) the
  sift is looking at, and ask its parent to be in order with its children instead.
\<close>

definition edge_ok :: "'a CompareFn \<Rightarrow> 'a list \<Rightarrow> nat \<Rightarrow> nat \<Rightarrow> bool" where
  "edge_ok cmp heap p c \<longleftrightarrow> (c < length heap \<longrightarrow> cmp (heap ! p) (heap ! c) \<le> 0)"

definition node_ok :: "'a CompareFn \<Rightarrow> 'a list \<Rightarrow> nat \<Rightarrow> bool" where
  "node_ok cmp heap i \<longleftrightarrow>
     edge_ok cmp heap i (2 * i + 1) \<and> edge_ok cmp heap i (2 * i + 2)"

definition heap_from :: "'a CompareFn \<Rightarrow> 'a list \<Rightarrow> nat \<Rightarrow> bool" where
  "heap_from cmp heap k \<longleftrightarrow> (\<forall>i\<ge>k. node_ok cmp heap i)"

definition down_inv :: "'a CompareFn \<Rightarrow> 'a list \<Rightarrow> nat \<Rightarrow> nat \<Rightarrow> bool" where
  "down_inv cmp heap k index \<longleftrightarrow>
     (\<forall>i\<ge>k. i \<noteq> index \<longrightarrow> node_ok cmp heap i) \<and>
     (\<forall>p\<ge>k. (index = 2 * p + 1 \<or> index = 2 * p + 2) \<longrightarrow>
        edge_ok cmp heap p (2 * index + 1) \<and> edge_ok cmp heap p (2 * index + 2))"

definition up_inv :: "'a CompareFn \<Rightarrow> 'a list \<Rightarrow> nat \<Rightarrow> bool" where
  "up_inv cmp heap index \<longleftrightarrow>
     (\<forall>i c. (c = 2 * i + 1 \<or> c = 2 * i + 2) \<longrightarrow> c \<noteq> index \<longrightarrow> edge_ok cmp heap i c) \<and>
     (\<forall>p c. (index = 2 * p + 1 \<or> index = 2 * p + 2) \<longrightarrow> (c = 2 * index + 1 \<or> c = 2 * index + 2) \<longrightarrow>
        edge_ok cmp heap p c)"

section \<open>Sorting\<close>

text \<open>
  \<^verbatim>\<open>Array.prototype.sort\<close> belongs to the language, not to the library. ECMAScript asks it
  to be stable, and for a consistent comparator that fixes its result: the elements in
  comparator order, those that compare equal in their original order. Insertion from the
  right, each element going in front of the first one it is not greater than, computes it
  (\<open>stable_sort\<close>).

  The language does not hand every pair of elements to the comparator of the caller. Its
  \<^verbatim>\<open>SortCompare\<close> takes two \<^verbatim>\<open>undefined\<close> values as equal and puts \<^verbatim>\<open>undefined\<close> after
  every other value, without a call; only two values that are not \<^verbatim>\<open>undefined\<close> reach
  the comparator. The element type \<^verbatim>\<open>T\<close> is unconstrained and may hold \<^verbatim>\<open>undefined\<close>:
  the parameter \<open>undef\<close> says which values of the element type are \<^verbatim>\<open>undefined\<close>.
\<close>

fun insort_by :: "'a CompareFn \<Rightarrow> 'a \<Rightarrow> 'a list \<Rightarrow> 'a list" where
  "insort_by cmp x [] = [x]"
| "insort_by cmp x (y # ys) = (if cmp x y \<le> 0 then x # y # ys else y # insort_by cmp x ys)"

definition stable_sort :: "'a list \<Rightarrow> 'a CompareFn \<Rightarrow> 'a list" where
  "stable_sort xs cmp = foldr (insort_by cmp) xs []"

definition sortCompare :: "('a \<Rightarrow> bool) \<Rightarrow> 'a CompareFn \<Rightarrow> 'a CompareFn" where
  "sortCompare undef cmp x y =
     (if undef x \<and> undef y then 0
      else if undef x then 1
      else if undef y then - 1
      else cmp x y)"

definition array_sort :: "('a \<Rightarrow> bool) \<Rightarrow> 'a list \<Rightarrow> 'a CompareFn \<Rightarrow> 'a list" where
  "array_sort undef arr cmp = stable_sort arr (sortCompare undef cmp)"

definition sorted_by :: "'a CompareFn \<Rightarrow> 'a list \<Rightarrow> bool" where
  "sorted_by cmp xs = sorted_wrt (\<lambda>a b. cmp a b \<le> 0) xs"

section \<open>The heap instance\<close>

text \<open>
  \<^verbatim>\<open>class Heap<T>\<close> with its two private fields. A method that mutates the instance
  returns the instance it leaves behind, next to its result; \<^verbatim>\<open>T | undefined\<close> is
  \<open>'a option\<close>.
\<close>

record 'a Heap =
  data :: "'a list"
  comparator :: "'a CompareFn"

definition Heap_size :: "'a Heap \<Rightarrow> nat" where
  "Heap_size h = length (data h)"

definition Heap_isEmpty :: "'a Heap \<Rightarrow> bool" where
  "Heap_isEmpty h \<longleftrightarrow> Heap_size h = 0"

definition Heap_heapify :: "'a Heap \<Rightarrow> 'a list option \<Rightarrow> 'a Heap" where
  "Heap_heapify h items =
     (let d = (case items of Some xs \<Rightarrow> data h @ xs | None \<Rightarrow> data h)
      in h\<lparr>data := heapify d (comparator h)\<rparr>)"

text \<open>
  The constructor, with its comparator already resolved (the function given first, the
  second argument, or \<open>defaultComparator\<close>); \<open>None\<close> is the call without a sequence.
\<close>

definition Heap_new :: "'a list option \<Rightarrow> 'a CompareFn \<Rightarrow> 'a Heap" where
  "Heap_new iterable cmp =
     (case iterable of
        None \<Rightarrow> \<lparr>data = [], comparator = cmp\<rparr>
      | Some xs \<Rightarrow> Heap_heapify \<lparr>data = xs, comparator = cmp\<rparr> None)"

definition Heap_push :: "'a Heap \<Rightarrow> 'a \<Rightarrow> 'a Heap" where
  "Heap_push h item =
     (let d = data h @ [item]
      in h\<lparr>data := siftUp d (length d - 1) (comparator h)\<rparr>)"

definition Heap_pop :: "'a Heap \<Rightarrow> 'a option \<times> 'a Heap" where
  "Heap_pop h =
     (if Heap_isEmpty h then (None, h)
      else
        (let root = data h ! 0;
             last = last (data h);
             d = butlast (data h)
         in if d \<noteq> [] then (Some root, h\<lparr>data := siftDown (d[0 := last]) 0 (length d) (comparator h)\<rparr>)
            else (Some root, h\<lparr>data := d\<rparr>)))"

definition Heap_peek :: "'a Heap \<Rightarrow> int \<Rightarrow> 'a option" where
  "Heap_peek h index =
     (if index < 0 \<or> index \<ge> int (length (data h)) then None else Some (data h ! nat index))"

definition Heap_replace :: "'a Heap \<Rightarrow> 'a \<Rightarrow> 'a option \<times> 'a Heap" where
  "Heap_replace h item =
     (case replace (data h) item (comparator h) of (returnitem, d) \<Rightarrow> (returnitem, h\<lparr>data := d\<rparr>))"

definition Heap_pushPop :: "'a Heap \<Rightarrow> 'a \<Rightarrow> 'a option \<times> 'a Heap" where
  "Heap_pushPop h item =
     (if Heap_isEmpty h \<or> comparator h item (data h ! 0) < 0 then (Some item, h)
      else
        (let root = data h ! 0;
             d = (data h)[0 := item]
         in (Some root, h\<lparr>data := siftDown d 0 (length d) (comparator h)\<rparr>)))"

text \<open>\<^verbatim>\<open>sort()\<close> sorts a copy of the backing array; this is the array it returns.\<close>

definition Heap_sort :: "('a \<Rightarrow> bool) \<Rightarrow> 'a Heap \<Rightarrow> 'a list" where
  "Heap_sort undef h = array_sort undef (data h) (comparator h)"

definition Heap_clone :: "'a Heap \<Rightarrow> 'a Heap" where
  "Heap_clone h = Heap_new (Some (data h)) (comparator h)"

text \<open>A call of one of the mutating methods, and a run of such calls on one instance.\<close>

datatype 'a heap_op = Push 'a | Pop | Replace 'a | PushPop 'a | Heapify "'a list option"

fun apply_op :: "'a Heap \<Rightarrow> 'a heap_op \<Rightarrow> 'a Heap" where
  "apply_op h (Push item) = Heap_push h item"
| "apply_op h Pop = snd (Heap_pop h)"
| "apply_op h (Replace item) = snd (Heap_replace h item)"
| "apply_op h (PushPop item) = snd (Heap_pushPop h item)"
| "apply_op h (Heapify items) = Heap_heapify h items"

definition run_ops :: "'a Heap \<Rightarrow> 'a heap_op list \<Rightarrow> 'a Heap" where
  "run_ops h ops = foldl apply_op h ops"

section \<open>The free-function facade\<close>

definition heapq_from :: "'a list \<Rightarrow> 'a CompareFn \<Rightarrow> 'a Heap" where
  "heapq_from iterable cmp = Heap_new (Some iterable) cmp"

definition heapq_of :: "('a \<Rightarrow> 'a \<Rightarrow> bool) \<Rightarrow> 'a list \<Rightarrow> 'a Heap" where
  "heapq_of lt items = Heap_new (Some items) (defaultComparator lt)"

definition heapq_heapify :: "'a list \<Rightarrow> 'a CompareFn \<Rightarrow> 'a list" where
  "heapq_heapify arr cmp = heapify arr cmp"

definition heapPush :: "'a list \<Rightarrow> 'a \<Rightarrow> 'a CompareFn \<Rightarrow> 'a list" where
  "heapPush arr item cmp = (let arr = arr @ [item] in siftUp arr (length arr - 1) cmp)"

definition heapPop :: "'a list \<Rightarrow> 'a CompareFn \<Rightarrow> 'a option \<times> 'a list" where
  "heapPop arr cmp =
     (if length arr = 0 then (None, arr)
      else
        (let last = last arr;
             arr = butlast arr
         in if length arr > 0
            then (let returnitem = arr ! 0
                  in (Some returnitem, siftDown (arr[0 := last]) 0 (length arr) cmp))
            else (Some last, arr)))"

definition heapPushPop :: "'a list \<Rightarrow> 'a \<Rightarrow> 'a CompareFn \<Rightarrow> 'a option \<times> 'a list" where
  "heapPushPop arr item cmp =
     (if length arr > 0 \<and> cmp (arr ! 0) item < 0
      then (let returnitem = arr ! 0;
                arr = arr[0 := item]
            in (Some returnitem, siftDown arr 0 (length arr) cmp))
      else (Some item, arr))"

definition heapReplace :: "'a list \<Rightarrow> 'a \<Rightarrow> 'a CompareFn \<Rightarrow> 'a option \<times> 'a list" where
  "heapReplace arr item cmp = replace arr item cmp"

section \<open>Order statistics\<close>

text \<open>
  What \<^verbatim>\<open>_nsmallest\<close> and \<^verbatim>\<open>_nlargest\<close> are given: a finite sequence, together with whether
  \<^verbatim>\<open>len\<close> can tell its length (an array, a string, anything with a numeric \<^verbatim>\<open>size\<close> or
  \<^verbatim>\<open>length\<close>) or not (a generator, for which \<^verbatim>\<open>len\<close> returns \<^verbatim>\<open>undefined\<close>).
\<close>

datatype 'a iterable = Array "'a list" | Generator "'a list"

fun elements :: "'a iterable \<Rightarrow> 'a list" where
  "elements (Array xs) = xs"
| "elements (Generator xs) = xs"

fun len :: "'a iterable \<Rightarrow> nat option" where
  "len (Array xs) = Some (length xs)"
| "len (Generator xs) = None"

text \<open>
  The one place where the selection code could fault: \<^verbatim>\<open>result[0][0]\<close> reads a component
  of \<^verbatim>\<open>undefined\<close> when \<^verbatim>\<open>result\<close> is empty, which is a \<^verbatim>\<open>TypeError\<close>.
\<close>

datatype error = TypeError

definition top_of :: "('a \<times> int) list \<Rightarrow> error + 'a" where
  "top_of result = (case result of [] \<Rightarrow> Inl TypeError | r # _ \<Rightarrow> Inr (fst r))"

definition heapComparator :: "'a CompareFn \<Rightarrow> ('a \<times> int) CompareFn" where
  "heapComparator cmp a b = (if cmp (fst a) (fst b) \<noteq> 0 then cmp (fst a) (fst b) else snd a - snd b)"

definition negated :: "'a CompareFn \<Rightarrow> 'a CompareFn" where
  "negated cmp a b = - cmp a b"

text \<open>
  The loop \<^verbatim>\<open>for (; i < n; i++)\<close> that seeds \<^verbatim>\<open>result\<close> with the first elements, each
  paired with its position; it returns \<^verbatim>\<open>result\<close>, \<^verbatim>\<open>i\<close> and what the iterator has left.
\<close>

fun seed :: "int \<Rightarrow> 'a list \<Rightarrow> int \<Rightarrow> ('a \<times> int) list \<Rightarrow> ('a \<times> int) list \<times> int \<times> 'a list" where
  "seed n [] i result = (result, i, [])"
| "seed n (v # it) i result =
     (if i < n then seed n it (i + 1) (result @ [(v, i)]) else (result, i, v # it))"

text \<open>The scans of the \<^verbatim>\<open>n === 1\<close> paths, over what follows the first element.\<close>

fun scan_min :: "'a CompareFn \<Rightarrow> 'a \<Rightarrow> 'a list \<Rightarrow> 'a" where
  "scan_min cmp min' [] = min'"
| "scan_min cmp min' (v # it) = scan_min cmp (if cmp v min' < 0 then v else min') it"

fun scan_max :: "'a CompareFn \<Rightarrow> 'a \<Rightarrow> 'a list \<Rightarrow> 'a" where
  "scan_max cmp max' [] = max'"
| "scan_max cmp max' (v # it) = scan_max cmp (if cmp v max' > 0 then v else max') it"

text \<open>The \<^verbatim>\<open>while (true)\<close> loops of the general paths, over the rest of the sequence.\<close>

fun scan_smallest ::
  "'a CompareFn \<Rightarrow> 'a list \<Rightarrow> ('a \<times> int) list \<Rightarrow> 'a \<Rightarrow> int \<Rightarrow> error + ('a \<times> int) list" where
  "scan_smallest cmp [] result top' i = Inr result"
| "scan_smallest cmp (v # it) result top' i =
     (if cmp v top' < 0 then
        (let result = snd (replace result (v, i) (negated (heapComparator cmp)))
         in case top_of result of
              Inl e \<Rightarrow> Inl e
            | Inr top' \<Rightarrow> scan_smallest cmp it result top' (i + 1))
      else scan_smallest cmp it result top' i)"

fun scan_largest ::
  "'a CompareFn \<Rightarrow> 'a list \<Rightarrow> ('a \<times> int) list \<Rightarrow> 'a \<Rightarrow> int \<Rightarrow> error + ('a \<times> int) list" where
  "scan_largest cmp [] result top' i = Inr result"
| "scan_largest cmp (v # it) result top' i =
     (if cmp v top' > 0 then
        (let result = snd (replace result (v, i) (heapComparator cmp))
         in case top_of result of
              Inl e \<Rightarrow> Inl e
            | Inr top' \<Rightarrow> scan_largest cmp it result top' (i + 1))
      else scan_largest cmp it result top' i)"

text \<open>
  The two functions sort twice: the copy of the whole sequence, whose elements may be
  \<^verbatim>\<open>undefined\<close>, and the working array \<^verbatim>\<open>result\<close>, whose elements are the pairs
  \<^verbatim>\<open>[value, index]\<close> and never \<^verbatim>\<open>undefined\<close>.
\<close>

definition nsmallest ::
  "('a \<Rightarrow> bool) \<Rightarrow> int \<Rightarrow> 'a iterable \<Rightarrow> 'a CompareFn \<Rightarrow> error + 'a list" where
  "nsmallest undef n iterable cmp =
     (if n \<le> 0 then Inr []
      else if (case len iterable of Some length' \<Rightarrow> n \<ge> int length' | None \<Rightarrow> False)
      then Inr (take (nat n) (array_sort undef (elements iterable) cmp))
      else if n = 1
      then (case elements iterable of [] \<Rightarrow> Inr [] | v # it \<Rightarrow> Inr [scan_min cmp v it])
      else
        (case seed n (elements iterable) 0 [] of
           (result, i, it) \<Rightarrow>
             if i = 0 then Inr []
             else
               (let result = heapify result (negated (heapComparator cmp))
                in case top_of result of
                     Inl e \<Rightarrow> Inl e
                   | Inr top' \<Rightarrow>
                       (case scan_smallest cmp it result top' i of
                          Inl e \<Rightarrow> Inl e
                        | Inr result \<Rightarrow> Inr (map fst (array_sort (\<lambda>_. False) result (heapComparator cmp)))))))"

definition nlargest ::
  "('a \<Rightarrow> bool) \<Rightarrow> int \<Rightarrow> 'a iterable \<Rightarrow> 'a CompareFn \<Rightarrow> error + 'a list" where
  "nlargest undef n iterable cmp =
     (if n \<le> 0 then Inr []
      else if (case len iterable of Some length' \<Rightarrow> n \<ge> int length' | None \<Rightarrow> False)
      then Inr (take (nat n) (array_sort undef (elements iterable) (negated cmp)))
      else if n = 1
      then (case elements iterable of [] \<Rightarrow> Inr [] | v # it \<Rightarrow> Inr [scan_max cmp v it])
      else
        (case seed n (elements iterable) 0 [] of
           (result, i, it) \<Rightarrow>
             if i = 0 then Inr []
             else
               (let result = heapify result (heapComparator cmp)
                in case top_of result of
                     Inl e \<Rightarrow> Inl e
                   | Inr top' \<Rightarrow>
                       (case scan_largest cmp it result top' i of
                          Inl e \<Rightarrow> Inl e
                        | Inr result \<Rightarrow>
                            Inr (map fst (array_sort (\<lambda>_. False) result
                                           (negated (heapComparator cmp))))))))"

text \<open>The instance methods hand the backing array to the two functions.\<close>

definition Heap_nsmallest :: "('a \<Rightarrow> bool) \<Rightarrow> 'a Heap \<Rightarrow> int \<Rightarrow> error + 'a list" where
  "Heap_nsmallest undef h n = nsmallest undef n (Array (data h)) (comparator h)"

definition Heap_nlargest :: "('a \<Rightarrow> bool) \<Rightarrow> 'a Heap \<Rightarrow> int \<Rightarrow> error + 'a list" where
  "Heap_nlargest undef h n = nlargest undef n (Array (data h)) (comparator h)"

text \<open>
  The facade derives the comparator from the key when one is given, and falls back on
  \<open>defaultComparator\<close>.
\<close>

definition heapq_nsmallest ::
  "('a \<Rightarrow> bool) \<Rightarrow> ('a \<Rightarrow> 'a \<Rightarrow> bool) \<Rightarrow> int \<Rightarrow> 'a iterable \<Rightarrow> 'a KeyFn option \<Rightarrow> error + 'a list" where
  "heapq_nsmallest undef lt n iterable key =
     (let cmp = (case key of Some k \<Rightarrow> (\<lambda>a b. k a - k b) | None \<Rightarrow> defaultComparator lt)
      in nsmallest undef n iterable cmp)"

definition heapq_nlargest ::
  "('a \<Rightarrow> bool) \<Rightarrow> ('a \<Rightarrow> 'a \<Rightarrow> bool) \<Rightarrow> int \<Rightarrow> 'a iterable \<Rightarrow> 'a KeyFn option \<Rightarrow> error + 'a list" where
  "heapq_nlargest undef lt n iterable key =
     (let cmp = (case key of Some k \<Rightarrow> (\<lambda>a b. k a - k b) | None \<Rightarrow> defaultComparator lt)
      in nlargest undef n iterable cmp)"

section \<open>Arrays as objects\<close>

text \<open>
  \<^verbatim>\<open>sort()\<close>, \<^verbatim>\<open>nsmallest(n)\<close> and \<^verbatim>\<open>nlargest(n)\<close> return arrays of their own, and
  \<^verbatim>\<open>Array.prototype.sort\<close> sorts the array it is called on. To tell the array a method
  writes to from the backing array of the heap, arrays live in a store here: a reference is
  an address, \<^verbatim>\<open>[...xs]\<close>, \<^verbatim>\<open>Array.from(xs)\<close>, \<^verbatim>\<open>xs.slice(0, n)\<close> and an array
  literal allocate a fresh address, \<^verbatim>\<open>xs.sort(cmp)\<close> overwrites the array at the
  address of \<^verbatim>\<open>xs\<close>.
\<close>

type_synonym addr = nat

record 'a store =
  arrays :: "addr \<Rightarrow> 'a list option"
  next_addr :: addr

definition wf_store :: "'a store \<Rightarrow> bool" where
  "wf_store s \<longleftrightarrow> (\<forall>a. next_addr s \<le> a \<longrightarrow> arrays s a = None)"

definition new_array :: "'a list \<Rightarrow> 'a store \<Rightarrow> addr \<times> 'a store" where
  "new_array xs s =
     (next_addr s, s\<lparr>arrays := (arrays s)(next_addr s \<mapsto> xs), next_addr := Suc (next_addr s)\<rparr>)"

definition contents :: "'a store \<Rightarrow> addr \<Rightarrow> 'a list" where
  "contents s a = (case arrays s a of Some xs \<Rightarrow> xs | None \<Rightarrow> [])"

definition sort_in_place ::
  "('a \<Rightarrow> bool) \<Rightarrow> addr \<Rightarrow> 'a CompareFn \<Rightarrow> 'a store \<Rightarrow> 'a store" where
  "sort_in_place undef a cmp s =
     s\<lparr>arrays := (arrays s)(a \<mapsto> array_sort undef (contents s a) cmp)\<rparr>"

text \<open>\<^verbatim>\<open>sort()\<close>: \<^verbatim>\<open>[...this._data].sort(this._comparator)\<close>.\<close>

definition Heap_sort_st ::
  "('a \<Rightarrow> bool) \<Rightarrow> addr \<Rightarrow> 'a CompareFn \<Rightarrow> 'a store \<Rightarrow> addr \<times> 'a store" where
  "Heap_sort_st undef this_data cmp s =
     (case new_array (contents s this_data) s of
        (copy, s) \<Rightarrow> (copy, sort_in_place undef copy cmp s))"

text \<open>
  \<^verbatim>\<open>_nsmallest\<close> and \<^verbatim>\<open>_nlargest\<close> called on an array, as the instance methods call
  them on \<^verbatim>\<open>this._data\<close>. With \<open>n\<close> at least the length they copy the array, sort
  the copy in place and return a slice of it. On the other paths they read the array
  through its iterator only, and what they return is an array they have built themselves:
  \<open>[]\<close>, \<open>[min]\<close>, or \<^verbatim>\<open>result.map(...)\<close>, with the elements \<open>nsmallest\<close> and
  \<open>nlargest\<close> compute.
\<close>

definition nsmallest_st ::
  "('a \<Rightarrow> bool) \<Rightarrow> int \<Rightarrow> addr \<Rightarrow> 'a CompareFn \<Rightarrow> 'a store \<Rightarrow> (error + addr) \<times> 'a store" where
  "nsmallest_st undef n iterable cmp s =
     (if n \<le> 0 then (case new_array [] s of (out, s) \<Rightarrow> (Inr out, s))
      else if n \<ge> int (length (contents s iterable)) then
        (case new_array (contents s iterable) s of
           (arr, s) \<Rightarrow>
             (let s = sort_in_place undef arr cmp s
              in case new_array (take (nat n) (contents s arr)) s of (out, s) \<Rightarrow> (Inr out, s)))
      else
        (case nsmallest undef n (Array (contents s iterable)) cmp of
           Inl e \<Rightarrow> (Inl e, s)
         | Inr result \<Rightarrow> (case new_array result s of (out, s) \<Rightarrow> (Inr out, s))))"

definition nlargest_st ::
  "('a \<Rightarrow> bool) \<Rightarrow> int \<Rightarrow> addr \<Rightarrow> 'a CompareFn \<Rightarrow> 'a store \<Rightarrow> (error + addr) \<times> 'a store" where
  "nlargest_st undef n iterable cmp s =
     (if n \<le> 0 then (case new_array [] s of (out, s) \<Rightarrow> (Inr out, s))
      else if n \<ge> int (length (contents s iterable)) then
        (case new_array (contents s iterable) s of
           (arr, s) \<Rightarrow>
             (let s = sort_in_place undef arr (negated cmp) s
              in case new_array (take (nat n) (contents s arr)) s of (out, s) \<Rightarrow> (Inr out, s)))
      else
        (case nlargest undef n (Array (contents s iterable)) cmp of
           Inl e \<Rightarrow> (Inl e, s)
         | Inr result \<Rightarrow> (case new_array result s of (out, s) \<Rightarrow> (Inr out, s))))"

section \<open>A comparator that cannot tell all elements apart\<close>

text \<open>
  Records ordered by a numeric key, as \<^verbatim>\<open>(a, b) => a[0] - b[0]\<close> orders pairs: two
  records with the same key compare equal and are still different values.
\<close>

definition by_key :: "(int \<times> string) CompareFn" where
  "by_key a b = fst a - fst b"

text \<open>
  An element type that holds \<^verbatim>\<open>undefined\<close>: \<^verbatim>\<open>number | undefined\<close>, with \<open>None\<close> for
  \<^verbatim>\<open>undefined\<close>, ordered by \<^verbatim>\<open>(a, b) => (a ?? 0) - (b ?? 0)\<close>.
\<close>

definition is_undefined :: "'a option \<Rightarrow> bool" where
  "is_undefined x \<longleftrightarrow> x = None"

definition value_or_zero :: "int option \<Rightarrow> int" where
  "value_or_zero x = (case x of None \<Rightarrow> 0 | Some v \<Rightarrow> v)"

definition by_value_or_zero :: "int option CompareFn" where
  "by_value_or_zero a b = value_or_zero a - value_or_zero b"

text \<open>JavaScript's \<^verbatim>\<open><\<close> on these values: a comparison with \<^verbatim>\<open>undefined\<close> is false.\<close>

definition js_less :: "int option \<Rightarrow> int option \<Rightarrow> bool" where
  "js_less a b = (case (a, b) of (Some x, Some y) \<Rightarrow> x < y | _ \<Rightarrow> False)"

section \<open>Vocabulary of the proofs\<close>

text \<open>
  Two functions the code does not have, used to say what it computes. \<open>insort_after\<close>
  puts an element behind the ones it is not smaller than: what a stable sort does with the
  element that comes last. \<open>enumerate_from\<close> pairs the elements of a sequence with
  their positions.
\<close>

fun insort_after :: "'a CompareFn \<Rightarrow> 'a \<Rightarrow> 'a list \<Rightarrow> 'a list" where
  "insort_after cmp x [] = [x]"
| "insort_after cmp x (y # ys) = (if cmp x y < 0 then x # y # ys else y # insort_after cmp x ys)"

fun enumerate_from :: "int \<Rightarrow> 'a list \<Rightarrow> ('a \<times> int) list" where
  "enumerate_from i [] = []"
| "enumerate_from i (x # xs) = (x, i) # enumerate_from (i + 1) xs"

text \<open>
  Stability of a selection: among the elements returned, those that compare equal to one
  another stand in the order they have in the original sequence. For every element \<open>x\<close>
  returned, the returned elements that compare equal to \<open>x\<close>, read in the order
  returned, are a subsequence of the original elements that compare equal to \<open>x\<close>.
\<close>

definition keeps_order :: "'a CompareFn \<Rightarrow> 'a list \<Rightarrow> 'a list \<Rightarrow> bool" where
  "keeps_order cmp original returned \<longleftrightarrow>
     (\<forall>x\<in>set returned.
        subseq (filter (\<lambda>y. cmp y x = 0) returned) (filter (\<lambda>y. cmp y x = 0) original))"

section \<open>Properties of the primitives\<close>

lemma heap_inv_heap_from: "heap_inv cmp heap \<longleftrightarrow> heap_from cmp heap 0"
  by (auto simp: heap_inv_def heap_from_def node_ok_def edge_ok_def)

lemma tp_flip: "total_preorder cmp \<Longrightarrow> \<not> cmp a b < 0 \<Longrightarrow> cmp b a \<le> 0"
  unfolding total_preorder_def by (metis not_le)

lemma tp_trans:
  "total_preorder cmp \<Longrightarrow> cmp a b \<le> 0 \<Longrightarrow> cmp b c \<le> 0 \<Longrightarrow> cmp a c \<le> 0"
  unfolding total_preorder_def by blast

lemma tp_refl: "total_preorder cmp \<Longrightarrow> cmp a a \<le> 0"
  using tp_flip [of cmp a a] by linarith

lemma smallestIndex_le:
  assumes tp: "total_preorder cmp"
    and c: "c = index \<or> (c = 2 * index + 1 \<or> c = 2 * index + 2) \<and> c < length'"
  shows "cmp (heap ! smallestIndex cmp heap length' index) (heap ! c) \<le> 0"
proof -
  define le where "le x y \<longleftrightarrow> cmp x y \<le> 0" for x y
  define l where "l = 2 * index + 1"
  define r where "r = 2 * index + 2"
  define s1 where "s1 = (if l < length' \<and> cmp (heap ! l) (heap ! index) < 0 then l else index)"
  define s where "s = (if r < length' \<and> cmp (heap ! r) (heap ! s1) < 0 then r else s1)"
  have s_eq: "smallestIndex cmp heap length' index = s"
    by (simp add: smallestIndex_def Let_def s_def s1_def l_def r_def)
  have refl: "le x x" for x by (simp add: le_def tp_refl [OF tp])
  have flip: "\<not> cmp x y < 0 \<Longrightarrow> le y x" for x y
    by (simp add: le_def tp_flip [OF tp])
  have strict: "cmp x y < 0 \<Longrightarrow> le x y" for x y by (simp add: le_def)
  have trans: "le x y \<Longrightarrow> le y z \<Longrightarrow> le x z" for x y z
    unfolding le_def by (rule tp_trans [OF tp])
  have s1_index: "le (heap ! s1) (heap ! index)"
    by (simp add: s1_def refl strict)
  have s1_l: "l < length' \<Longrightarrow> le (heap ! s1) (heap ! l)"
    by (simp add: s1_def refl flip)
  have s_s1: "le (heap ! s) (heap ! s1)"
    by (simp add: s_def refl strict)
  have s_r: "r < length' \<Longrightarrow> le (heap ! s) (heap ! r)"
    using flip [of "heap ! r" "heap ! s1"] by (simp add: s_def refl)
  from c consider "c = index" | "c = l" "l < length'" | "c = r" "r < length'"
    by (auto simp: l_def r_def)
  then have "le (heap ! s) (heap ! c)"
  proof cases
    case 1
    then show ?thesis using trans [OF s_s1 s1_index] by simp
  next
    case 2
    then show ?thesis using trans [OF s_s1 s1_l] by simp
  next
    case 3
    then show ?thesis using s_r by simp
  qed
  then show ?thesis by (simp add: s_eq le_def)
qed

lemma down_inv_step:
  assumes tp: "total_preorder cmp"
    and idx: "index < length heap" "k \<le> index"
    and s: "s = smallestIndex cmp heap (length heap) index" "s \<noteq> index"
    and inv: "down_inv cmp heap k index"
  shows "down_inv cmp (heap[index := heap ! s, s := heap ! index]) k s"
proof -
  let ?h = "heap[index := heap ! s, s := heap ! index]"
  from s smallestIndex_cases [of cmp heap "length heap" index]
  have s_child: "s = 2 * index + 1 \<or> s = 2 * index + 2" and s_len: "s < length heap"
    by auto
  have le_child: "cmp (heap ! s) (heap ! c) \<le> 0"
    if "c = index \<or> (c = 2 * index + 1 \<or> c = 2 * index + 2) \<and> c < length heap" for c
    using smallestIndex_le [OF tp that, of heap] s by simp
  have nth_h: "?h ! j = (if j = s then heap ! index else if j = index then heap ! s else heap ! j)"
    if "j < length heap" for j
    using that by (simp add: nth_list_update)
  have old: "cmp (heap ! i) (heap ! c) \<le> 0"
    if "k \<le> i" "i \<noteq> index" "c = 2 * i + 1 \<or> c = 2 * i + 2" "c < length heap" for i c
    using inv that unfolding down_inv_def node_ok_def edge_ok_def by blast
  have grand: "cmp (heap ! p) (heap ! c) \<le> 0"
    if "k \<le> p" "index = 2 * p + 1 \<or> index = 2 * p + 2" 
       "c = 2 * index + 1 \<or> c = 2 * index + 2" "c < length heap" for p c
    using inv that unfolding down_inv_def node_ok_def edge_ok_def by blast
  have new_edge: "cmp (?h ! i) (?h ! c) \<le> 0"
    if i: "k \<le> i" "i \<noteq> s" and c: "c = 2 * i + 1 \<or> c = 2 * i + 2" "c < length heap" for i c
  proof (cases "i = index")
    case True
    then show ?thesis using c le_child [of c] le_child [of index] idx s_len s_child
      by (auto simp: nth_h)
  next
    case False
    have "c \<noteq> s" using s_child c False by auto
    show ?thesis
    proof (cases "c = index")
      case True
      then have "cmp (heap ! i) (heap ! s) \<le> 0"
        using grand [of i s] i c s_child s_len by auto
      then show ?thesis using True False i c \<open>c \<noteq> s\<close> by (simp add: nth_h)
    next
      case cf: False
      then show ?thesis using old [of i c] i c False \<open>c \<noteq> s\<close> by (simp add: nth_h)
    qed
  qed
  have new_grand: "cmp (?h ! p) (?h ! c) \<le> 0"
    if "k \<le> p" "s = 2 * p + 1 \<or> s = 2 * p + 2" "c = 2 * s + 1 \<or> c = 2 * s + 2" "c < length heap" for p c
  proof -
    have "p = index" using that s_child by auto
    moreover have "cmp (heap ! s) (heap ! c) \<le> 0"
      using old [of s c] that s_child idx s by auto
    moreover have "c \<noteq> s" "c \<noteq> index" using that s_child by auto
    ultimately show ?thesis using that idx by (simp add: nth_h)
  qed
  show ?thesis
    unfolding down_inv_def node_ok_def edge_ok_def length_list_update
    using new_edge new_grand by blast
qed


lemma length_siftDown_loop [simp]:
  "length (siftDown_loop cmp item length' heap index) = length heap"
proof (induction cmp item length' heap index rule: siftDown_loop.induct)
  case (1 cmp item length' heap index)
  show ?case
    using 1 by (subst siftDown_loop.simps) (auto simp: Let_def)
qed

lemma length_siftDown [simp]: "length (siftDown heap index length' cmp) = length heap"
  by (simp add: siftDown_def)

lemma mset_siftDown_loop:
  "item = heap ! index \<Longrightarrow> length' = length heap \<Longrightarrow>
   mset (siftDown_loop cmp item length' heap index) = mset heap"
proof (induction cmp item length' heap index rule: siftDown_loop.induct)
  case (1 cmp item length' heap index)
  show ?case
  proof (cases "index < length' \<and> smallestIndex cmp heap length' index \<noteq> index")
    case True
    define s where "s = smallestIndex cmp heap length' index"
    from True smallestIndex_cases [of cmp heap length' index] "1.prems"
    have s: "s < length heap" "index < length heap" "s \<noteq> index" "index < length'"
      by (auto simp: s_def)
    let ?h = "heap[index := heap ! s, s := item]"
    have "mset (siftDown_loop cmp item length' ?h s) = mset ?h"
      using "1.IH" [of s] s "1.prems" by (simp add: s_def)
    also have "mset ?h = mset heap"
      using s "1.prems" by (simp add: mset_swap)
    finally show ?thesis
      using s by (subst siftDown_loop.simps) (simp add: Let_def s_def)
  next
    case False
    then show ?thesis by (subst siftDown_loop.simps) (auto simp: Let_def)
  qed
qed

lemma mset_siftDown [simp]:
  "mset (siftDown heap index (length heap) cmp) = mset heap"
  by (simp add: siftDown_def mset_siftDown_loop)

lemma smallestIndex_self_node_ok:
  assumes tp: "total_preorder cmp"
    and s: "smallestIndex cmp heap (length heap) index = index"
  shows "node_ok cmp heap index"
  using smallestIndex_le [OF tp, of "2 * index + 1" index "length heap" heap]
    smallestIndex_le [OF tp, of "2 * index + 2" index "length heap" heap] s
  by (simp add: node_ok_def edge_ok_def)

lemma heap_from_siftDown_loop:
  "total_preorder cmp \<Longrightarrow> length' = length heap \<Longrightarrow> item = heap ! index \<Longrightarrow>
   k \<le> index \<Longrightarrow> down_inv cmp heap k index \<Longrightarrow>
   heap_from cmp (siftDown_loop cmp item length' heap index) k"
proof (induction cmp item length' heap index rule: siftDown_loop.induct)
  case (1 cmp item length' heap index)
  define s where "s = smallestIndex cmp heap length' index"
  show ?case
  proof (cases "index < length'")
    case False
    then have "node_ok cmp heap index"
      using "1.prems" by (simp add: node_ok_def edge_ok_def)
    then have "heap_from cmp heap k"
      using "1.prems" unfolding heap_from_def down_inv_def by blast
    then show ?thesis using False by (subst siftDown_loop.simps) simp
  next
    case True
    show ?thesis
    proof (cases "s = index")
      case same: True
      then have "node_ok cmp heap index"
        using smallestIndex_self_node_ok [of cmp heap index] "1.prems" by (simp add: s_def)
      then have "heap_from cmp heap k"
        using "1.prems" unfolding heap_from_def down_inv_def by blast
      then show ?thesis using True same
        by (subst siftDown_loop.simps) (simp add: Let_def s_def)
    next
      case diff: False
      let ?h = "heap[index := heap ! s, s := item]"
      from diff smallestIndex_cases [of cmp heap length' index] "1.prems"
      have sl: "s < length heap" "index < s" by (auto simp: s_def)
      have "down_inv cmp ?h k s"
        using down_inv_step [of cmp index heap k s] "1.prems" True diff
        by (simp add: s_def)
      then have "heap_from cmp (siftDown_loop cmp item length' ?h s) k"
        using "1.IH" [of s] "1.prems" True diff sl by (simp add: s_def)
      then show ?thesis using True diff
        by (subst siftDown_loop.simps) (simp add: Let_def s_def)
    qed
  qed
qed

lemma heap_from_siftDown:
  assumes "total_preorder cmp" and "heap_from cmp heap (Suc k)"
  shows "heap_from cmp (siftDown heap k (length heap) cmp) k"
proof -
  have "down_inv cmp heap k k"
    using assms(2) unfolding down_inv_def heap_from_def
    by auto
  then show ?thesis
    using heap_from_siftDown_loop [of cmp "length heap" heap "heap ! k" k k] assms(1)
    by (simp add: siftDown_def)
qed


lemma parent_cases: "0 < (index::nat) \<Longrightarrow> index = 2 * ((index - 1) div 2) + 1 \<or> index = 2 * ((index - 1) div 2) + 2"
  by presburger

lemma up_inv_step:
  assumes tp: "total_preorder cmp"
    and idx: "index < length heap" "0 < index"
    and p: "p = (index - 1) div 2"
    and less: "cmp item (heap ! p) < 0"
    and inv: "up_inv cmp (heap[index := item]) index"
  shows "up_inv cmp (heap[index := heap ! p, p := item]) p"
proof -
  let ?a = "heap[index := item]"
  let ?h = "heap[index := heap ! p, p := item]"
  from parent_cases [OF idx(2)] p
  have p_par: "index = 2 * p + 1 \<or> index = 2 * p + 2" by simp
  then have p_less: "p < index" by auto
  have nth_a: "?a ! j = (if j = index then item else heap ! j)" if "j < length heap" for j
    using that by (simp add: nth_list_update)
  have nth_h: "?h ! j = (if j = p then item else if j = index then heap ! p else heap ! j)"
    if "j < length heap" for j
    using that by (simp add: nth_list_update)
  have old: "cmp (heap ! i) (heap ! c) \<le> 0"
    if "c = 2 * i + 1 \<or> c = 2 * i + 2" "c \<noteq> index" "i \<noteq> index" "c < length heap" for i c
  proof -
    have "edge_ok cmp ?a i c" using inv that unfolding up_inv_def by blast
    moreover have "i < length heap" using that by auto
    ultimately show ?thesis using that by (simp add: edge_ok_def nth_a)
  qed
  have grand: "cmp (heap ! p) (heap ! c) \<le> 0"
    if "c = 2 * index + 1 \<or> c = 2 * index + 2" "c < length heap" for c
  proof -
    have "edge_ok cmp ?a p c" using inv that p_par unfolding up_inv_def by blast
    moreover have "c \<noteq> index" "p \<noteq> index" using that p_less by auto
    ultimately show ?thesis using that idx p_less by (simp add: edge_ok_def nth_a)
  qed
  have item_p: "cmp item (heap ! p) \<le> 0" using less by simp
  have new_edge: "cmp (?h ! i) (?h ! c) \<le> 0"
    if c: "c = 2 * i + 1 \<or> c = 2 * i + 2" "c \<noteq> p" "c < length heap" for i c
  proof -
    have i_len: "i < length heap" using c by auto
    consider "i = p" "c = index" | "i = p" "c \<noteq> index" | "i = index" | "i \<noteq> p" "i \<noteq> index"
      by blast
    then show ?thesis
    proof cases
      case 1
      then show ?thesis using item_p idx p_less by (simp add: nth_h)
    next
      case 2
      then have "cmp (heap ! p) (heap ! c) \<le> 0"
        using old [of c p] c p_less by auto
      from tp_trans [OF tp item_p this] show ?thesis
        using 2 c i_len by (simp add: nth_h)
    next
      case 3
      then have "c \<noteq> index" "c \<noteq> p" using c p_less by auto
      then show ?thesis using grand [of c] 3 c idx p_less by (simp add: nth_h)
    next
      case 4
      have "c \<noteq> index" using c 4 p_par by auto
      then show ?thesis using old [of c i] 4 c i_len by (simp add: nth_h)
    qed
  qed
  have new_grand: "cmp (?h ! q) (?h ! c) \<le> 0"
    if q: "p = 2 * q + 1 \<or> p = 2 * q + 2" and c: "c = 2 * p + 1 \<or> c = 2 * p + 2" "c < length heap"
    for q c
  proof -
    have qp: "q < p" "q \<noteq> index" "q < length heap" "p < length heap" "c \<noteq> p" "c \<noteq> q"
      using q p_less idx c by auto
    have q_p: "cmp (heap ! q) (heap ! p) \<le> 0"
      using old [of p q] q qp p_less by auto
    show ?thesis
    proof (cases "c = index")
      case True
      then show ?thesis using q_p qp idx by (simp add: nth_h)
    next
      case False
      then have "cmp (heap ! p) (heap ! c) \<le> 0"
        using old [of c p] c p_less by auto
      from tp_trans [OF tp q_p this] show ?thesis
        using False qp c by (simp add: nth_h)
    qed
  qed
  show ?thesis
    unfolding up_inv_def edge_ok_def length_list_update
    using new_edge new_grand by blast
qed

lemma length_siftUp_loop [simp]:
  "length (siftUp_loop cmp item heap index) = length heap"
proof (induction cmp item heap index rule: siftUp_loop.induct)
  case (1 cmp item heap index)
  show ?case
    using 1 by (subst siftUp_loop.simps) (auto simp: Let_def)
qed

lemma mset_siftUp_loop:
  "index < length heap \<Longrightarrow>
   mset (siftUp_loop cmp item heap index) = mset (heap[index := item])"
proof (induction cmp item heap index rule: siftUp_loop.induct)
  case (1 cmp item heap index)
  define p where "p = (index - 1) div 2"
  show ?case
  proof (cases "0 < index \<and> \<not> cmp item (heap ! p) \<ge> 0")
    case True
    then have pl: "p < index" "p < length heap" using "1.prems" by (auto simp: p_def)
    let ?a = "heap[index := item]"
    have "mset (siftUp_loop cmp item (heap[index := heap ! p]) p)
          = mset (heap[index := heap ! p, p := item])"
      using "1.IH" [of p] True pl by (simp add: p_def)
    also have "heap[index := heap ! p, p := item] = ?a[index := ?a ! p, p := ?a ! index]"
      using pl "1.prems" by simp
    also have "mset \<dots> = mset ?a"
      using pl "1.prems" by (intro mset_swap) simp_all
    finally show ?thesis
      using True by (subst siftUp_loop.simps) (simp add: Let_def p_def)
  next
    case False
    then show ?thesis by (subst siftUp_loop.simps) (auto simp: Let_def p_def)
  qed
qed

lemma heap_inv_siftUp_loop:
  "total_preorder cmp \<Longrightarrow> index < length heap \<Longrightarrow>
   up_inv cmp (heap[index := item]) index \<Longrightarrow>
   heap_inv cmp (siftUp_loop cmp item heap index)"
proof (induction cmp item heap index rule: siftUp_loop.induct)
  case (1 cmp item heap index)
  define p where "p = (index - 1) div 2"
  let ?a = "heap[index := item]"
  have all_but: "edge_ok cmp ?a i c"
    if "c = 2 * i + 1 \<or> c = 2 * i + 2" "c \<noteq> index" for i c
    using "1.prems"(3) that unfolding up_inv_def by blast
  show ?case
  proof (cases "0 < index")
    case False
    then have "heap_from cmp ?a 0"
      unfolding heap_from_def node_ok_def using all_but by simp
    then show ?thesis using False
      by (subst siftUp_loop.simps) (simp add: heap_inv_heap_from)
  next
    case True
    from parent_cases [OF True]
    have p_par: "index = 2 * p + 1 \<or> index = 2 * p + 2" by (simp add: p_def)
    then have pl: "p < index" by auto
    show ?thesis
    proof (cases "cmp item (heap ! p) \<ge> 0")
      case ge: True
      then have "cmp (heap ! p) item \<le> 0"
        using tp_flip [OF "1.prems"(1), of item "heap ! p"] by simp
      then have "edge_ok cmp ?a p index"
        using pl "1.prems"(2) by (simp add: edge_ok_def)
      then have "edge_ok cmp ?a i c" if "c = 2 * i + 1 \<or> c = 2 * i + 2" for i c
      proof (cases "c = index")
        case True
        then have "i = p" using that p_par by arith
        then show ?thesis using True \<open>edge_ok cmp ?a p index\<close> by simp
      next
        case False
        then show ?thesis using all_but [of c i] that by simp
      qed
      then have "heap_from cmp ?a 0"
        unfolding heap_from_def node_ok_def by simp
      then show ?thesis using True ge
        by (subst siftUp_loop.simps) (simp add: Let_def p_def heap_inv_heap_from)
    next
      case lt: False
      have "up_inv cmp (heap[index := heap ! p, p := item]) p"
        using up_inv_step [of cmp index heap p item] "1.prems" True lt
        by (simp add: p_def)
      then have "heap_inv cmp (siftUp_loop cmp item (heap[index := heap ! p]) p)"
        using "1.IH" [of p] "1.prems" True lt pl by (simp add: p_def)
      then show ?thesis using True lt
        by (subst siftUp_loop.simps) (simp add: Let_def p_def)
    qed
  qed
qed

lemma heap_from_heapify_loop:
  "total_preorder cmp \<Longrightarrow> heap_from cmp items k \<Longrightarrow>
   heap_from cmp (heapify_loop cmp items k) 0"
proof (induction k arbitrary: items)
  case 0
  then show ?case by simp
next
  case (Suc k)
  then show ?case using heap_from_siftDown [of cmp items k] by simp
qed

lemma length_heapify_loop [simp]: "length (heapify_loop cmp items k) = length items"
  by (induction k arbitrary: items) simp_all

lemma mset_heapify_loop [simp]: "mset (heapify_loop cmp items k) = mset items"
proof (induction k arbitrary: items)
  case 0
  show ?case by simp
next
  case (Suc k)
  have "mset (heapify_loop cmp (siftDown items k (length items) cmp) k)
        = mset (siftDown items k (length items) cmp)"
    by (rule Suc.IH)
  then show ?case by simp
qed

lemma heap_inv_heapify:
  assumes "total_preorder cmp"
  shows "heap_inv cmp (heapify items cmp)"
proof -
  have "heap_from cmp items (length items div 2)"
    unfolding heap_from_def node_ok_def edge_ok_def by auto
  from heap_from_heapify_loop [OF assms this] show ?thesis
    by (simp add: heapify_def heap_inv_heap_from)
qed

lemma heap_inv_root_le:
  assumes tp: "total_preorder cmp" and inv: "heap_inv cmp heap"
  shows "i < length heap \<Longrightarrow> cmp (heap ! 0) (heap ! i) \<le> 0"
proof (induction i rule: less_induct)
  case (less i)
  show ?case
  proof (cases "i = 0")
    case True
    then show ?thesis by (simp add: tp_refl [OF tp])
  next
    case False
    define p where "p = (i - 1) div 2"
    from False parent_cases [of i] have par: "i = 2 * p + 1 \<or> i = 2 * p + 2"
      by (simp add: p_def)
    then have pl: "p < i" by auto
    have "cmp (heap ! p) (heap ! i) \<le> 0"
      using inv par less.prems pl unfolding heap_inv_def by auto
    moreover have "cmp (heap ! 0) (heap ! p) \<le> 0"
      using less.IH [OF pl] pl less.prems by simp
    ultimately show ?thesis using tp_trans [OF tp] by blast
  qed
qed

lemma heap_inv_Nil [simp]: "heap_inv cmp []"
  by (simp add: heap_inv_def)

lemma heap_inv_single [simp]: "heap_inv cmp [x]"
  by (simp add: heap_inv_def)

lemma heap_inv_butlast: "heap_inv cmp heap \<Longrightarrow> heap_inv cmp (butlast heap)"
  by (simp add: heap_inv_def nth_butlast)

lemma heap_inv_sift_root:
  assumes tp: "total_preorder cmp" and inv: "heap_inv cmp heap" and ne: "heap \<noteq> []"
  shows "heap_inv cmp (siftDown (heap[0 := x]) 0 (length heap) cmp)"
proof -
  have "node_ok cmp (heap[0 := x]) i" if "i \<noteq> 0" for i
    using inv that unfolding heap_inv_def node_ok_def edge_ok_def by auto
  then have "down_inv cmp (heap[0 := x]) 0 0"
    unfolding down_inv_def by simp
  from heap_from_siftDown_loop [OF tp _ _ _ this, of "length heap" "heap[0 := x] ! 0"]
  show ?thesis by (simp add: siftDown_def heap_inv_heap_from)
qed

lemma mset_sift_root:
  assumes "heap \<noteq> []"
  shows "mset (siftDown (heap[0 := x]) 0 (length heap) cmp) = mset heap - {#heap ! 0#} + {#x#}"
proof -
  have "mset (siftDown (heap[0 := x]) 0 (length (heap[0 := x])) cmp) = mset (heap[0 := x])"
    by (rule mset_siftDown)
  then show ?thesis using assms by (simp add: mset_update)
qed

lemma heap_inv_siftUp_last:
  assumes tp: "total_preorder cmp" and inv: "heap_inv cmp heap"
  shows "heap_inv cmp (siftUp (heap @ [x]) (length heap) cmp)"
proof -
  have "edge_ok cmp (heap @ [x]) i c" if "c = 2 * i + 1 \<or> c = 2 * i + 2" "c \<noteq> length heap" for i c
  proof (cases "c < length heap")
    case True
    then have "i < length heap" using that by auto
    then show ?thesis using inv that True unfolding heap_inv_def edge_ok_def
      by (auto simp: nth_append)
  next
    case False
    then show ?thesis using that by (simp add: edge_ok_def)
  qed
  then have "up_inv cmp ((heap @ [x])[length heap := (heap @ [x]) ! length heap]) (length heap)"
    unfolding up_inv_def by (auto simp: edge_ok_def)
  from heap_inv_siftUp_loop [OF tp _ this] show ?thesis
    by (simp add: siftUp_def)
qed

lemma mset_siftUp [simp]: "index < length heap \<Longrightarrow> mset (siftUp heap index cmp) = mset heap"
  by (simp add: siftUp_def mset_siftUp_loop)

lemma length_siftUp [simp]: "length (siftUp heap index cmp) = length heap"
  by (simp add: siftUp_def)

lemma length_heapify [simp]: "length (heapify items cmp) = length items"
  by (simp add: heapify_def)

lemma mset_heapify [simp]: "mset (heapify items cmp) = mset items"
  by (simp add: heapify_def)

lemma replace_fst: "fst (replace heap item cmp) = (if heap = [] then None else Some (heap ! 0))"
  by (simp add: replace_def Let_def)

lemma replace_snd:
  "snd (replace heap item cmp) =
     siftDown (if heap = [] then [item] else heap[0 := item]) 0 (max 1 (length heap)) cmp"
  by (cases heap) (simp_all add: replace_def Let_def)

lemma replace_Nil: "replace [] item cmp = (None, [item])"
  by (simp add: replace_def Let_def siftDown_def siftDown_loop.simps smallestIndex_def)

lemma heap_inv_replace:
  assumes tp: "total_preorder cmp" and inv: "heap_inv cmp heap"
  shows "heap_inv cmp (snd (replace heap item cmp))"
proof (cases "heap = []")
  case True
  then show ?thesis by (simp add: replace_Nil)
next
  case False
  then show ?thesis using heap_inv_sift_root [OF tp inv False, of item]
    by (simp add: replace_def Let_def)
qed

lemma mset_replace:
  "mset (snd (replace heap item cmp)) = (if heap = [] then {#item#} else mset heap - {#heap ! 0#} + {#item#})"
  by (auto simp: replace_Nil replace_def Let_def mset_update)

subsection \<open>Every method keeps the invariant\<close>

lemma Heap_push_inv:
  assumes "total_preorder (comparator h)" "heap_inv (comparator h) (data h)"
  shows "heap_inv (comparator h) (data (Heap_push h item)) \<and> comparator (Heap_push h item) = comparator h"
  using heap_inv_siftUp_last [OF assms, of item] by (simp add: Heap_push_def Let_def)

lemma Heap_pop_inv:
  assumes "total_preorder (comparator h)" "heap_inv (comparator h) (data h)"
  shows "heap_inv (comparator h) (data (snd (Heap_pop h))) \<and> comparator (snd (Heap_pop h)) = comparator h"
  using heap_inv_sift_root [OF assms(1) heap_inv_butlast [OF assms(2)], of "last (data h)"]
    heap_inv_butlast [OF assms(2)] assms(2)
  by (simp add: Heap_pop_def Let_def)

lemma Heap_replace_inv:
  assumes "total_preorder (comparator h)" "heap_inv (comparator h) (data h)"
  shows "heap_inv (comparator h) (data (snd (Heap_replace h item))) \<and>
         comparator (snd (Heap_replace h item)) = comparator h"
  using heap_inv_replace [OF assms, of item]
  by (simp add: Heap_replace_def split_beta)

lemma Heap_pushPop_inv:
  assumes "total_preorder (comparator h)" "heap_inv (comparator h) (data h)"
  shows "heap_inv (comparator h) (data (snd (Heap_pushPop h item))) \<and>
         comparator (snd (Heap_pushPop h item)) = comparator h"
  using heap_inv_sift_root [OF assms, of item] assms(2)
  by (auto simp: Heap_pushPop_def Let_def Heap_isEmpty_def Heap_size_def)

lemma Heap_heapify_inv:
  assumes "total_preorder (comparator h)"
  shows "heap_inv (comparator h) (data (Heap_heapify h items)) \<and>
         comparator (Heap_heapify h items) = comparator h"
  using heap_inv_heapify [OF assms] by (simp add: Heap_heapify_def Let_def)

lemma Heap_new_inv:
  assumes "total_preorder cmp"
  shows "heap_inv cmp (data (Heap_new iterable cmp)) \<and> comparator (Heap_new iterable cmp) = cmp"
proof (cases iterable)
  case None
  then show ?thesis by (simp add: Heap_new_def)
next
  case (Some xs)
  then show ?thesis
    using Heap_heapify_inv [of "\<lparr>data = xs, comparator = cmp\<rparr>" None] assms
    by (simp add: Heap_new_def)
qed

lemma public_constructors:
  "heapq_from xs cmp = Heap_new (Some xs) cmp"
  "heapq_of lt ys = Heap_new (Some ys) (defaultComparator lt)"
  "Heap_clone h = Heap_new (Some (data h)) (comparator h)"
  by (simp_all add: heapq_from_def heapq_of_def Heap_clone_def)

lemma apply_op_inv:
  assumes "total_preorder (comparator h)" "heap_inv (comparator h) (data h)"
  shows "heap_inv (comparator h) (data (apply_op h op)) \<and> comparator (apply_op h op) = comparator h"
  using Heap_push_inv [OF assms] Heap_pop_inv [OF assms] Heap_replace_inv [OF assms]
    Heap_pushPop_inv [OF assms] Heap_heapify_inv [OF assms(1)]
  by (cases op) simp_all

lemma run_ops_inv:
  "total_preorder (comparator h) \<Longrightarrow> heap_inv (comparator h) (data h) \<Longrightarrow>
   heap_inv (comparator h) (data (run_ops h ops)) \<and> comparator (run_ops h ops) = comparator h"
  unfolding run_ops_def
proof (induction ops arbitrary: h)
  case Nil
  then show ?case by simp
next
  case (Cons op ops)
  from apply_op_inv [OF Cons.prems, of op] Cons.IH [of "apply_op h op"] Cons.prems
  show ?case by simp
qed

subsection \<open>Popping until the heap is empty\<close>

text \<open>
  The caller's loop \<^verbatim>\<open>while (!heap.isEmpty) out.push(heap.pop())\<close>, which stops at the
  first \<^verbatim>\<open>undefined\<close>. Every \<^verbatim>\<open>pop\<close> that returns an element shrinks the heap, so the
  loop ends.
\<close>

lemma Heap_pop_size:
  "Heap_pop h = (Some root, h') \<Longrightarrow> Heap_size h' < Heap_size h"
  by (auto simp: Heap_pop_def Heap_size_def Heap_isEmpty_def Let_def split: if_splits)

function popAll :: "'a Heap \<Rightarrow> 'a list" where
  "popAll h = (case Heap_pop h of (None, h') \<Rightarrow> [] | (Some root, h') \<Rightarrow> root # popAll h')"
  by pat_completeness auto
termination
  by (relation "measure Heap_size") (auto dest: Heap_pop_size [OF sym])

declare popAll.simps [simp del]

lemma Heap_pop_empty: "data h = [] \<Longrightarrow> Heap_pop h = (None, h)"
  by (simp add: Heap_pop_def Heap_isEmpty_def Heap_size_def)

lemma Heap_pop_nonempty:
  assumes "data h \<noteq> []"
  shows "fst (Heap_pop h) = Some (data h ! 0) \<and>
         mset (data (snd (Heap_pop h))) = mset (data h) - {#data h ! 0#} \<and>
         comparator (snd (Heap_pop h)) = comparator h"
proof (cases "butlast (data h) = []")
  case True
  then obtain x where "data h = [x]"
    using assms by (cases "data h") (auto split: if_splits)
  then show ?thesis
    by (simp add: Heap_pop_def Heap_isEmpty_def Heap_size_def Let_def)
next
  case False
  let ?d = "butlast (data h)"
  have length': "2 \<le> length (data h)" using False assms
    by (cases "data h") (auto split: if_splits simp: Suc_le_eq)
  have d: "data h = ?d @ [last (data h)]" using assms by simp
  have "mset (siftDown (?d[0 := last (data h)]) 0 (length ?d) (comparator h))
          = mset ?d - {#?d ! 0#} + {#last (data h)#}"
    by (rule mset_sift_root [OF False])
  also have "?d ! 0 = data h ! 0" using length' by (simp add: nth_butlast)
  also have "mset ?d - {#data h ! 0#} + {#last (data h)#} = mset (data h) - {#data h ! 0#}"
  proof -
    have "data h ! 0 \<in># mset ?d"
      using length' \<open>?d ! 0 = data h ! 0\<close> nth_mem [of 0 ?d] by simp
    then have "mset ?d - {#data h ! 0#} + {#last (data h)#}
               = (mset ?d + {#last (data h)#}) - {#data h ! 0#}"
      by simp
    also have "mset ?d + {#last (data h)#} = mset (data h)"
      by (subst (3) d) simp
    finally show ?thesis .
  qed
  finally show ?thesis using False assms
    by (simp add: Heap_pop_def Heap_isEmpty_def Heap_size_def Let_def)
qed

lemma mset_popAll: "mset (popAll h) = mset (data h)"
proof (induction h rule: popAll.induct)
  case (1 h)
  show ?case
  proof (cases "data h = []")
    case True
    then show ?thesis by (subst popAll.simps) (simp add: Heap_pop_empty)
  next
    case False
    obtain h' where p: "Heap_pop h = (Some (data h ! 0), h')"
      and m: "mset (data h') = mset (data h) - {#data h ! 0#}"
      using Heap_pop_nonempty [OF False] by (cases "Heap_pop h") auto
    have "data h ! 0 \<in># mset (data h)" using False by simp
    then show ?thesis using "1.IH" [OF p [symmetric] refl] m p
      by (subst popAll.simps) simp
  qed
qed

lemma sorted_by_popAll:
  "total_preorder (comparator h) \<Longrightarrow> heap_inv (comparator h) (data h) \<Longrightarrow>
   sorted_by (comparator h) (popAll h)"
proof (induction h rule: popAll.induct)
  case (1 h)
  show ?case
  proof (cases "data h = []")
    case True
    then show ?thesis by (subst popAll.simps) (simp add: Heap_pop_empty sorted_by_def)
  next
    case False
    obtain h' where p: "Heap_pop h = (Some (data h ! 0), h')"
      and m: "mset (data h') = mset (data h) - {#data h ! 0#}"
      and c: "comparator h' = comparator h"
      using Heap_pop_nonempty [OF False] by (cases "Heap_pop h") auto
    have inv': "heap_inv (comparator h) (data h')"
      using Heap_pop_inv [OF "1.prems"] p by simp
    have "sorted_by (comparator h) (popAll h')"
      using "1.IH" [OF p [symmetric] refl] "1.prems" inv' c by simp
    moreover have "comparator h (data h ! 0) y \<le> 0" if "y \<in> set (popAll h')" for y
    proof -
      from that have "y \<in># mset (data h')" by (metis mset_popAll set_mset_mset)
      then have "y \<in> set (data h)" using m by (auto dest: in_diffD)
      then show ?thesis using heap_inv_root_le [OF "1.prems"] by (auto simp: in_set_conv_nth)
    qed
    ultimately show ?thesis using p
      by (subst popAll.simps) (simp add: sorted_by_def)
  qed
qed

lemma pushes_inv:
  "total_preorder (comparator h) \<Longrightarrow> heap_inv (comparator h) (data h) \<Longrightarrow>
   heap_inv (comparator h) (data (foldl Heap_push h xs)) \<and>
   comparator (foldl Heap_push h xs) = comparator h \<and>
   mset (data (foldl Heap_push h xs)) = mset (data h) + mset xs"
proof (induction xs arbitrary: h)
  case Nil
  then show ?case by simp
next
  case (Cons x xs)
  have "mset (data (Heap_push h x)) = mset (data h) + {#x#}"
    by (simp add: Heap_push_def Let_def)
  then show ?case
    using Heap_push_inv [OF Cons.prems, of x] Cons.IH [of "Heap_push h x"] Cons.prems
    by simp
qed

lemma siftDown_single [simp]: "siftDown [x] 0 (Suc 0) cmp = [x]"
  by (simp add: siftDown_def siftDown_loop.simps smallestIndex_def)

subsection \<open>Concrete comparators and heaps\<close>

lemma total_preorder_minus: "total_preorder (\<lambda>a b :: int. a - b)"
  by (auto simp: total_preorder_def)

lemma total_preorder_by_key: "total_preorder by_key"
  by (auto simp: total_preorder_def by_key_def)

lemma heap_inv_358: "heap_inv (\<lambda>a b :: int. a - b) [3, 5, 8]"
  by (simp add: heap_inv_def less_Suc_eq numeral_3_eq_3)

lemma heap_inv_1357: "heap_inv (\<lambda>a b :: int. a - b) [1, 3, 5, 7]"
  by (simp add: heap_inv_def less_Suc_eq numeral_eq_Suc)

section \<open>Properties of sorting and selection\<close>

subsection \<open>Consequences of the comparator contract\<close>

lemma tp_less_flip: "total_preorder cmp \<Longrightarrow> (cmp a b < 0) = (0 < cmp b a)"
  unfolding total_preorder_def by blast

lemma tp_le_iff: "total_preorder cmp \<Longrightarrow> (cmp a b \<le> 0) = (\<not> cmp b a < 0)"
  using tp_less_flip [of cmp b a] by auto

lemma tp_eq_sym: "total_preorder cmp \<Longrightarrow> cmp a b = 0 \<Longrightarrow> cmp b a = 0"
  using tp_less_flip [of cmp a b] tp_less_flip [of cmp b a] by auto

lemma tp_antisym: "total_preorder cmp \<Longrightarrow> cmp a b \<le> 0 \<Longrightarrow> cmp b a \<le> 0 \<Longrightarrow> cmp a b = 0"
  using tp_less_flip [of cmp a b] by auto

lemma tp_less_le_trans:
  assumes tp: "total_preorder cmp" and "cmp a b < 0" "cmp b c \<le> 0"
  shows "cmp a c < 0"
proof (rule ccontr)
  assume "\<not> cmp a c < 0"
  then have "cmp c a \<le> 0" by (rule tp_flip [OF tp])
  from tp_trans [OF tp assms(3) this] have "cmp b a \<le> 0" .
  then show False using assms(2) tp_less_flip [OF tp, of a b] by simp
qed

lemma tp_le_less_trans:
  assumes tp: "total_preorder cmp" and "cmp a b \<le> 0" "cmp b c < 0"
  shows "cmp a c < 0"
proof (rule ccontr)
  assume "\<not> cmp a c < 0"
  then have "cmp c a \<le> 0" by (rule tp_flip [OF tp])
  from tp_trans [OF tp this assms(2)] have "cmp c b \<le> 0" .
  then show False using assms(3) tp_less_flip [OF tp, of b c] by simp
qed

lemma mset_insort_by [simp]: "mset (insort_by cmp x xs) = add_mset x (mset xs)"
  by (induction xs) auto

lemma mset_insort_after [simp]: "mset (insort_after cmp x xs) = add_mset x (mset xs)"
  by (induction xs) auto

lemma set_insort_by [simp]: "set (insort_by cmp x xs) = insert x (set xs)"
  by (induction xs) auto

lemma set_insort_after [simp]: "set (insort_after cmp x xs) = insert x (set xs)"
  by (induction xs) auto

lemma length_insort_by [simp]: "length (insort_by cmp x xs) = Suc (length xs)"
  by (induction xs) auto

lemma length_insort_after [simp]: "length (insort_after cmp x xs) = Suc (length xs)"
  by (induction xs) auto

lemma sorted_by_Cons [simp]:
  "sorted_by cmp (x # xs) \<longleftrightarrow> (\<forall>y\<in>set xs. cmp x y \<le> 0) \<and> sorted_by cmp xs"
  by (simp add: sorted_by_def)

lemma sorted_by_Nil [simp]: "sorted_by cmp []"
  by (simp add: sorted_by_def)

lemma sorted_insort_by:
  assumes tp: "total_preorder cmp"
  shows "sorted_by cmp xs \<Longrightarrow> sorted_by cmp (insort_by cmp x xs)"
proof (induction xs)
  case Nil
  show ?case by simp
next
  case (Cons y ys)
  show ?case
  proof (cases "cmp x y \<le> 0")
    case True
    then have "\<forall>z\<in>set ys. cmp x z \<le> 0"
      using Cons.prems tp_trans [OF tp] by auto
    then show ?thesis using True Cons.prems by simp
  next
    case False
    then have "cmp y x \<le> 0" using tp_flip [OF tp, of x y] by simp
    then show ?thesis using False Cons by simp
  qed
qed

lemma sorted_insort_after:
  assumes tp: "total_preorder cmp"
  shows "sorted_by cmp xs \<Longrightarrow> sorted_by cmp (insort_after cmp x xs)"
proof (induction xs)
  case Nil
  show ?case by simp
next
  case (Cons y ys)
  show ?case
  proof (cases "cmp x y < 0")
    case True
    then have "cmp x y \<le> 0" by simp
    then have "\<forall>z\<in>set ys. cmp x z \<le> 0"
      using Cons.prems tp_trans [OF tp] by auto
    then show ?thesis using True Cons.prems by simp
  next
    case False
    then have "cmp y x \<le> 0" using tp_flip [OF tp, of x y] by simp
    then show ?thesis using False Cons by simp
  qed
qed

lemma mset_stable_sort [simp]: "mset (stable_sort xs cmp) = mset xs"
  by (induction xs) (simp_all add: stable_sort_def)

lemma set_stable_sort [simp]: "set (stable_sort xs cmp) = set xs"
  by (induction xs) (simp_all add: stable_sort_def)

lemma length_stable_sort [simp]: "length (stable_sort xs cmp) = length xs"
  by (induction xs) (simp_all add: stable_sort_def)

lemma stable_sort_Nil [simp]: "stable_sort [] cmp = []"
  by (simp add: stable_sort_def)

lemma stable_sort_Cons: "stable_sort (x # xs) cmp = insort_by cmp x (stable_sort xs cmp)"
  by (simp add: stable_sort_def)

lemma sorted_stable_sort:
  "total_preorder cmp \<Longrightarrow> sorted_by cmp (stable_sort xs cmp)"
  by (induction xs) (simp_all add: stable_sort_Cons sorted_insort_by)

lemma insort_commute:
  assumes tp: "total_preorder cmp"
  shows "insort_by cmp x (insort_after cmp v xs) = insort_after cmp v (insort_by cmp x xs)"
proof (induction xs)
  case Nil
  show ?case using tp_le_iff [OF tp, of x v] by simp
next
  case (Cons y ys)
  consider "cmp x y \<le> 0" "cmp v y < 0" | "cmp x y \<le> 0" "\<not> cmp v y < 0"
    | "\<not> cmp x y \<le> 0" "cmp v y < 0" | "\<not> cmp x y \<le> 0" "\<not> cmp v y < 0"
    by blast
  then show ?case
  proof cases
    case 1
    then show ?thesis using tp_le_iff [OF tp, of x v] by simp
  next
    case 2
    then have "cmp y v \<le> 0" using tp_flip [OF tp] by blast
    from tp_trans [OF tp 2(1) this] have "\<not> cmp v x < 0"
      using tp_le_iff [OF tp, of x v] by simp
    then show ?thesis using 2 by simp
  next
    case 3
    then have "cmp y x < 0" using tp_le_iff [OF tp, of x y] by simp
    from tp_less_le_trans [OF tp 3(2)] this have "cmp v x < 0" by simp
    then have "\<not> cmp x v \<le> 0" using tp_le_iff [OF tp, of x v] by simp
    then show ?thesis using 3 by simp
  next
    case 4
    then show ?thesis using Cons.IH by simp
  qed
qed

lemma stable_sort_snoc:
  assumes tp: "total_preorder cmp"
  shows "stable_sort (xs @ [v]) cmp = insort_after cmp v (stable_sort xs cmp)"
proof (induction xs)
  case Nil
  show ?case by (simp add: stable_sort_Cons)
next
  case (Cons x xs)
  then show ?case by (simp add: stable_sort_Cons insort_commute [OF tp])
qed

lemma sorted_by_unique:
  assumes tp: "total_preorder cmp"
  shows "sorted_by cmp xs \<Longrightarrow> sorted_by cmp ys \<Longrightarrow> mset xs = mset ys \<Longrightarrow>
         (\<forall>a\<in>set xs. \<forall>b\<in>set xs. cmp a b = 0 \<longrightarrow> a = b) \<Longrightarrow> xs = ys"
proof (induction xs arbitrary: ys)
  case Nil
  then show ?case by simp
next
  case (Cons x xs)
  from Cons.prems(3) obtain y ys' where ys: "ys = y # ys'" by (cases ys) auto
  have sets: "set (x # xs) = set (y # ys')"
    using Cons.prems(3) ys by (metis set_mset_mset)
  have "x = y"
  proof (rule ccontr)
    assume ne: "x \<noteq> y"
    then have "x \<in> set ys'" "y \<in> set xs" using sets by auto
    then have "cmp y x \<le> 0" "cmp x y \<le> 0" using Cons.prems(1,2) ys by auto
    then have "cmp x y = 0" using tp_antisym [OF tp] by blast
    moreover have "y \<in> set (x # xs)" using sets by simp
    ultimately show False using Cons.prems(4) ne by auto
  qed
  moreover have "xs = ys'"
    using Cons.IH [of ys'] Cons.prems ys \<open>x = y\<close> by auto
  ultimately show ?case using ys by simp
qed

subsection \<open>The comparator on tagged pairs\<close>

lemma total_preorder_negated:
  assumes tp: "total_preorder cmp"
  shows "total_preorder (negated cmp)"
  unfolding total_preorder_def negated_def
proof (intro conjI allI impI)
  fix a b show "(- cmp a b < 0) = (0 < - cmp b a)"
    using tp_less_flip [OF tp, of b a] by simp
next
  fix a b c assume "- cmp a b \<le> 0" "- cmp b c \<le> 0"
  then have "cmp b a \<le> 0" "cmp c b \<le> 0"
    using tp_flip [OF tp, of a b] tp_flip [OF tp, of b c] by simp_all
  from tp_trans [OF tp this(2,1)] have "cmp c a \<le> 0" .
  then show "- cmp a c \<le> 0" using tp_le_iff [OF tp, of c a] by simp
qed

lemma negated_le_iff:
  "total_preorder cmp \<Longrightarrow> (negated cmp a b \<le> 0) = (cmp b a \<le> 0)"
  using tp_le_iff [of cmp b a] by (auto simp: negated_def)

lemma heapComparator_less:
  "heapComparator cmp a b < 0 \<longleftrightarrow> cmp (fst a) (fst b) < 0 \<or> cmp (fst a) (fst b) = 0 \<and> snd a < snd b"
  by (auto simp: heapComparator_def)

lemma heapComparator_le:
  "heapComparator cmp a b \<le> 0 \<longleftrightarrow> cmp (fst a) (fst b) < 0 \<or> cmp (fst a) (fst b) = 0 \<and> snd a \<le> snd b"
  by (auto simp: heapComparator_def)

lemma heapComparator_eq0:
  "heapComparator cmp a b = 0 \<longleftrightarrow> cmp (fst a) (fst b) = 0 \<and> snd a = snd b"
  by (auto simp: heapComparator_def)

lemma total_preorder_heapComparator:
  assumes tp: "total_preorder cmp"
  shows "total_preorder (heapComparator cmp)"
  unfolding total_preorder_def
proof (intro conjI allI impI)
  fix a b :: "'a \<times> int"
  show "(heapComparator cmp a b < 0) = (0 < heapComparator cmp b a)"
    using tp_less_flip [OF tp, of "fst a" "fst b"] tp_less_flip [OF tp, of "fst b" "fst a"]
    by (auto simp: heapComparator_def)
next
  fix a b c :: "'a \<times> int"
  assume ab: "heapComparator cmp a b \<le> 0" and bc: "heapComparator cmp b c \<le> 0"
  have le_ab: "cmp (fst a) (fst b) \<le> 0" and le_bc: "cmp (fst b) (fst c) \<le> 0"
    using ab bc by (auto simp: heapComparator_le)
  show "heapComparator cmp a c \<le> 0"
  proof (cases "cmp (fst a) (fst b) < 0 \<or> cmp (fst b) (fst c) < 0")
    case True
    then have "cmp (fst a) (fst c) < 0"
      using tp_less_le_trans [OF tp _ le_bc] tp_le_less_trans [OF tp le_ab] by blast
    then show ?thesis by (simp add: heapComparator_le)
  next
    case False
    then have e: "cmp (fst a) (fst b) = 0" "cmp (fst b) (fst c) = 0" "snd a \<le> snd b" "snd b \<le> snd c"
      using ab bc by (auto simp: heapComparator_le)
    have "cmp (fst a) (fst c) \<le> 0" by (rule tp_trans [OF tp le_ab le_bc])
    then show ?thesis using e by (auto simp: heapComparator_le)
  qed
qed

lemma seed_eq:
  "seed n xs i result =
     (result @ enumerate_from i (take (nat (n - i)) xs), i + int (min (nat (n - i)) (length xs)),
      drop (nat (n - i)) xs)"
proof (induction xs arbitrary: i result)
  case Nil
  show ?case by simp
next
  case (Cons x xs)
  show ?case
  proof (cases "i < n")
    case True
    then have "nat (n - i) = Suc (nat (n - (i + 1)))" by simp
    then show ?thesis using True Cons.IH [of "i + 1" "result @ [(x, i)]"] by simp
  next
    case False
    then show ?thesis by simp
  qed
qed

lemma map_fst_enumerate_from [simp]: "map fst (enumerate_from i xs) = xs"
  by (induction xs arbitrary: i) simp_all

lemma length_enumerate_from [simp]: "length (enumerate_from i xs) = length xs"
  by (induction xs arbitrary: i) simp_all

lemma snd_enumerate_from:
  "p \<in> set (enumerate_from i xs) \<Longrightarrow> i \<le> snd p \<and> snd p < i + int (length xs)"
  by (induction xs arbitrary: i) fastforce+

lemma distinct_enumerate_from: "distinct (map snd (enumerate_from i xs))"
proof (induction xs arbitrary: i)
  case Nil
  show ?case by simp
next
  case (Cons x xs)
  have "i \<notin> snd ` set (enumerate_from (i + 1) xs)"
    using snd_enumerate_from [of _ "i + 1" xs] by fastforce
  then show ?case using Cons.IH by simp
qed

lemma enumerate_from_snoc:
  "enumerate_from i (xs @ [v]) = enumerate_from i xs @ [(v, i + int (length xs))]"
  by (induction xs arbitrary: i) (simp_all add: add.assoc)

lemma map_fst_insort_after:
  "\<forall>p\<in>set ps. snd p < i \<Longrightarrow>
   map fst (insort_after (heapComparator cmp) (v, i) ps) = insort_after cmp v (map fst ps)"
  by (induction ps) (auto simp: heapComparator_less)

lemma strict_on_distinct:
  assumes "distinct (map snd ps)"
  shows "\<forall>a\<in>set ps. \<forall>b\<in>set ps. heapComparator cmp a b = 0 \<longrightarrow> a = b"
proof (intro ballI impI)
  fix a b assume "a \<in> set ps" "b \<in> set ps" "heapComparator cmp a b = 0"
  then have "snd a = snd b" by (simp add: heapComparator_eq0)
  then show "a = b"
    using assms \<open>a \<in> set ps\<close> \<open>b \<in> set ps\<close> by (meson distinct_map inj_onD)
qed

lemma stable_sort_cong_mset:
  assumes tp: "total_preorder cmp" and "mset xs = mset ys"
    and "\<forall>a\<in>set xs. \<forall>b\<in>set xs. cmp a b = 0 \<longrightarrow> a = b"
  shows "stable_sort xs cmp = stable_sort ys cmp"
  by (rule sorted_by_unique [OF tp sorted_stable_sort [OF tp] sorted_stable_sort [OF tp]])
     (use assms in simp_all)

lemma map_fst_stable_sort_enumerate:
  assumes tp: "total_preorder cmp"
  shows "map fst (stable_sort (enumerate_from i xs) (heapComparator cmp)) = stable_sort xs cmp"
proof (induction xs rule: rev_induct)
  case Nil
  show ?case by simp
next
  case (snoc v xs)
  have "\<forall>p\<in>set (stable_sort (enumerate_from i xs) (heapComparator cmp)). snd p < i + int (length xs)"
    using snd_enumerate_from [of _ i xs] by simp
  then show ?case
    using snoc.IH
    by (simp add: enumerate_from_snoc stable_sort_snoc [OF tp]
        stable_sort_snoc [OF total_preorder_heapComparator [OF tp]] map_fst_insort_after)
qed

lemma take_insort_after:
  assumes tp: "total_preorder cmp"
  shows "sorted_by cmp xs \<Longrightarrow> 0 < k \<Longrightarrow> k \<le> length xs \<Longrightarrow>
         take k (insort_after cmp v xs) =
           (if cmp v (xs ! (k - 1)) < 0 then insort_after cmp v (take (k - 1) xs) else take k xs)"
proof (induction xs arbitrary: k)
  case Nil
  then show ?case by simp
next
  case (Cons y ys)
  obtain j where k: "k = Suc j" using Cons.prems(2) by (cases k) auto
  show ?case
  proof (cases "cmp v y < 0")
    case True
    have "cmp v ((y # ys) ! j) < 0"
    proof (cases j)
      case 0
      then show ?thesis using True by simp
    next
      case (Suc j')
      then have "ys ! j' \<in> set ys" using Cons.prems(3) k by simp
      then have "cmp y (ys ! j') \<le> 0" using Cons.prems(1) by simp
      from tp_less_le_trans [OF tp True this] show ?thesis using Suc by simp
    qed
    then show ?thesis using True k by (cases j) simp_all
  next
    case False
    show ?thesis
    proof (cases j)
      case 0
      then show ?thesis using False k by simp
    next
      case (Suc j')
      then show ?thesis
        using False k Cons.IH [of j] Cons.prems by simp
    qed
  qed
qed

subsection \<open>The bounded heap holds the sorted prefix\<close>

lemma length_replace [simp]: "length (snd (replace heap item cmp)) = max 1 (length heap)"
  by (cases heap) (simp_all add: replace_def Let_def)

lemma top_of_nonempty: "result \<noteq> [] \<Longrightarrow> top_of result = Inr (fst (result ! 0))"
  by (cases result) (simp_all add: top_of_def)

lemma last_take: "0 < k \<Longrightarrow> k \<le> length xs \<Longrightarrow> last (take k xs) = xs ! (k - 1)"
  by (cases k) (simp_all add: take_Suc_conv_app_nth)

lemma sorted_by_last:
  assumes tp: "total_preorder cmp"
  shows "sorted_by cmp xs \<Longrightarrow> x \<in> set xs \<Longrightarrow> cmp x (last xs) \<le> 0"
proof (induction xs)
  case Nil
  then show ?case by simp
next
  case (Cons y ys)
  then show ?case using tp_refl [OF tp, of y] by (cases "ys = []") auto
qed

lemma sorted_by_butlast: "sorted_by cmp xs \<Longrightarrow> sorted_by cmp (butlast xs)"
  by (induction xs) (auto dest: in_set_butlastD)

lemma mset_butlast: "xs \<noteq> [] \<Longrightarrow> mset (butlast xs) = mset xs - {#last xs#}"
  by (induction xs rule: rev_induct) simp_all

lemma max_root_is_last:
  assumes tp: "total_preorder cmp"
    and inv: "heap_inv (negated cmp) heap" and ne: "heap \<noteq> []"
    and strict: "\<forall>a\<in>set heap. \<forall>b\<in>set heap. cmp a b = 0 \<longrightarrow> a = b"
  shows "last (stable_sort heap cmp) = heap ! 0"
proof -
  let ?L = "stable_sort heap cmp"
  have Lne: "?L \<noteq> []" using ne by (metis length_stable_sort length_0_conv)
  then have lastin: "last ?L \<in> set heap" using last_in_set [of ?L] by simp
  then obtain j where j: "j < length heap" "heap ! j = last ?L"
    by (auto simp: in_set_conv_nth)
  have "negated cmp (heap ! 0) (heap ! j) \<le> 0"
    by (rule heap_inv_root_le [OF total_preorder_negated [OF tp] inv j(1)])
  then have a: "cmp (last ?L) (heap ! 0) \<le> 0"
    using j negated_le_iff [OF tp] by simp
  have rootin: "heap ! 0 \<in> set heap" using ne by simp
  then have b: "cmp (heap ! 0) (last ?L) \<le> 0"
    using sorted_by_last [OF tp sorted_stable_sort [OF tp], of "heap ! 0" heap] by simp
  from tp_antisym [OF tp a b] strict lastin rootin show ?thesis by blast
qed

lemma distinct_snd_replace:
  assumes d: "distinct (map snd result)" and b: "\<forall>p\<in>set result. snd p < (i::int)"
    and ne: "result \<noteq> []"
  shows "distinct (map snd (snd (replace result (v, i) cmp))) \<and>
         (\<forall>p\<in>set (snd (replace result (v, i) cmp)). snd p < i + 1)"
proof -
  let ?r = "snd (replace result (v, i) cmp)"
  let ?ys = "(v, i) # remove1 (result ! 0) result"
  have m: "mset ?r = mset ?ys"
    using ne by (simp add: mset_replace)
  have "distinct (map snd (remove1 (result ! 0) result))"
    using d by (metis distinct_map distinct_remove1 inj_on_subset set_remove1_subset)
  moreover have "i \<notin> snd ` set (remove1 (result ! 0) result)"
  proof
    assume "i \<in> snd ` set (remove1 (result ! 0) result)"
    then obtain p where p: "p \<in> set (remove1 (result ! 0) result)" "snd p = i" by auto
    then have "p \<in> set result" by (meson notin_set_remove1)
    then have "snd p < i" using b by blast
    then show False using p(2) by simp
  qed
  ultimately have "distinct (map snd ?ys)" by simp
  moreover have "mset (map snd ?r) = mset (map snd ?ys)"
    using m by (metis mset_map)
  ultimately have "distinct (map snd ?r)"
    by (metis mset_eq_imp_distinct_iff)
  moreover have "set ?r = set ?ys" using m by (metis set_mset_mset)
  then have "\<forall>p\<in>set ?r. snd p < i + 1"
  proof (intro ballI)
    fix p assume "set ?r = set ?ys" "p \<in> set ?r"
    then have "p = (v, i) \<or> p \<in> set result" by (auto dest: notin_set_remove1)
    then show "snd p < i + 1" using b by auto
  qed
  ultimately show ?thesis by blast
qed

lemma scan_smallest_correct:
  assumes tp: "total_preorder cmp"
  shows "result \<noteq> [] \<Longrightarrow> heap_inv (negated (heapComparator cmp)) result \<Longrightarrow>
         distinct (map snd result) \<Longrightarrow> \<forall>p\<in>set result. snd p < i \<Longrightarrow>
         top' = fst (result ! 0) \<Longrightarrow> length result \<le> length seen \<Longrightarrow>
         map fst (stable_sort result (heapComparator cmp)) = take (length result) (stable_sort seen cmp) \<Longrightarrow>
         \<exists>result'. scan_smallest cmp it result top' i = Inr result' \<and>
           map fst (stable_sort result' (heapComparator cmp))
             = take (length result) (stable_sort (seen @ it) cmp)"
proof (induction it arbitrary: result top' i seen)
  case Nil
  then show ?case by simp
next
  case (Cons v it)
  let ?hc = "heapComparator cmp"
  let ?k = "length result"
  let ?L = "stable_sort result ?hc"
  let ?S = "stable_sort seen cmp"
  have tph: "total_preorder ?hc" by (rule total_preorder_heapComparator [OF tp])
  have strict: "\<forall>a\<in>set result. \<forall>b\<in>set result. ?hc a b = 0 \<longrightarrow> a = b"
    by (rule strict_on_distinct [OF Cons.prems(3)])
  have kpos: "0 < ?k" using Cons.prems(1) by simp
  have Lne: "?L \<noteq> []" using Cons.prems(1) by (metis length_stable_sort length_0_conv)
  have lastL: "last ?L = result ! 0"
    by (rule max_root_is_last [OF tph Cons.prems(2) Cons.prems(1) strict])
  have top_eq: "top' = ?S ! (?k - 1)"
  proof -
    have "top' = fst (last ?L)" using Cons.prems(5) lastL by simp
    also have "\<dots> = last (map fst ?L)" using Lne by (simp add: last_map)
    also have "\<dots> = last (take ?k ?S)" using Cons.prems(7) by simp
    also have "\<dots> = ?S ! (?k - 1)"
      using kpos Cons.prems(6) by (simp add: last_take)
    finally show ?thesis .
  qed
  have step: "take ?k (stable_sort (seen @ [v]) cmp) =
      (if cmp v top' < 0 then insort_after cmp v (take (?k - 1) ?S) else take ?k ?S)"
    using take_insort_after [OF tp sorted_stable_sort [OF tp], of ?k seen v] kpos Cons.prems(6)
    by (simp add: stable_sort_snoc [OF tp] top_eq)
  have app: "seen @ v # it = (seen @ [v]) @ it" by simp
  show ?case
  proof (cases "cmp v top' < 0")
    case False
    have "\<exists>result'. scan_smallest cmp it result top' i = Inr result' \<and>
           map fst (stable_sort result' ?hc) = take ?k (stable_sort ((seen @ [v]) @ it) cmp)"
      using Cons.prems step False
      by (intro Cons.IH) simp_all
    then show ?thesis using False by (simp only: app scan_smallest.simps if_False)
  next
    case True
    let ?r = "snd (replace result (v, i) (negated ?hc))"
    have len_r: "length ?r = ?k" using kpos by (simp add: max_def Suc_le_eq)
    then have r_ne: "?r \<noteq> []" using kpos by (metis length_greater_0_conv)
    have inv_r: "heap_inv (negated ?hc) ?r"
      by (rule heap_inv_replace [OF total_preorder_negated [OF tph] Cons.prems(2)])
    have dist_r: "distinct (map snd ?r)" and bound_r: "\<forall>p\<in>set ?r. snd p < i + 1"
      using distinct_snd_replace [OF Cons.prems(3,4,1), of v "negated ?hc"] by simp_all
    have mset_r: "mset ?r = add_mset (v, i) (mset result - {#result ! 0#})"
      using Cons.prems(1) by (simp add: mset_replace)
    have sorted_eq: "stable_sort ?r ?hc = insort_after ?hc (v, i) (butlast ?L)"
    proof (rule sorted_by_unique [OF tph])
      show "sorted_by ?hc (stable_sort ?r ?hc)" by (rule sorted_stable_sort [OF tph])
      show "sorted_by ?hc (insort_after ?hc (v, i) (butlast ?L))"
        by (intro sorted_insort_after [OF tph] sorted_by_butlast sorted_stable_sort [OF tph])
      show "mset (stable_sort ?r ?hc) = mset (insort_after ?hc (v, i) (butlast ?L))"
        using Lne lastL by (simp add: mset_r mset_butlast)
      show "\<forall>a\<in>set (stable_sort ?r ?hc). \<forall>b\<in>set (stable_sort ?r ?hc). ?hc a b = 0 \<longrightarrow> a = b"
        using strict_on_distinct [OF dist_r, of cmp] by simp
    qed
    have "\<forall>p\<in>set (butlast ?L). snd p < i"
    proof
      fix p assume "p \<in> set (butlast ?L)"
      then have "p \<in> set ?L" by (rule in_set_butlastD)
      then show "snd p < i" using Cons.prems(4) by simp
    qed
    then have "map fst (stable_sort ?r ?hc) = insort_after cmp v (map fst (butlast ?L))"
      by (simp add: sorted_eq map_fst_insort_after)
    also have "map fst (butlast ?L) = butlast (take ?k ?S)"
      using Cons.prems(7) by (simp add: map_butlast)
    also have "\<dots> = take (?k - 1) ?S"
      using Cons.prems(6) by (simp add: butlast_take)
    finally have spec: "map fst (stable_sort ?r ?hc) = take (length ?r) (stable_sort (seen @ [v]) cmp)"
      using step True len_r by simp
    have "\<exists>result'. scan_smallest cmp it ?r (fst (?r ! 0)) (i + 1) = Inr result' \<and>
           map fst (stable_sort result' ?hc) = take (length ?r) (stable_sort ((seen @ [v]) @ it) cmp)"
      using r_ne inv_r dist_r bound_r spec Cons.prems(6) len_r
      by (intro Cons.IH) simp_all
    then show ?thesis using True len_r
      by (simp only: app scan_smallest.simps if_True Let_def top_of_nonempty [OF r_ne] sum.case)
  qed
qed

lemma scan_min_correct:
  assumes tp: "total_preorder cmp"
  shows "seen \<noteq> [] \<Longrightarrow> [m] = take 1 (stable_sort seen cmp) \<Longrightarrow>
         [scan_min cmp m it] = take 1 (stable_sort (seen @ it) cmp)"
proof (induction it arbitrary: m seen)
  case Nil
  then show ?case by simp
next
  case (Cons v it)
  let ?S = "stable_sort seen cmp"
  have "?S \<noteq> []" using Cons.prems(1) by (metis length_stable_sort length_0_conv)
  then have m: "m = ?S ! 0" using Cons.prems(2) by (cases ?S) simp_all
  have "take 1 (stable_sort (seen @ [v]) cmp) = [if cmp v m < 0 then v else m]"
    using take_insort_after [OF tp sorted_stable_sort [OF tp], of 1 seen v] Cons.prems \<open>?S \<noteq> []\<close>
    by (simp add: stable_sort_snoc [OF tp] m Suc_le_eq)
  then have "[scan_min cmp (if cmp v m < 0 then v else m) it]
             = take 1 (stable_sort ((seen @ [v]) @ it) cmp)"
    by (intro Cons.IH) simp_all
  then show ?case by simp
qed

subsection \<open>The sort of the language\<close>

lemma sortCompare_never [simp]: "sortCompare (\<lambda>_. False) cmp = cmp"
  by (intro ext) (simp add: sortCompare_def)

lemma array_sort_pairs [simp]: "array_sort (\<lambda>_. False) xs cmp = stable_sort xs cmp"
  by (simp add: array_sort_def)

lemma mset_array_sort [simp]: "mset (array_sort undef xs cmp) = mset xs"
  by (simp add: array_sort_def)

lemma set_array_sort [simp]: "set (array_sort undef xs cmp) = set xs"
  by (simp add: array_sort_def)

lemma length_array_sort [simp]: "length (array_sort undef xs cmp) = length xs"
  by (simp add: array_sort_def)

lemma insort_by_cong:
  "\<forall>y\<in>set ys. c1 x y = c2 x y \<Longrightarrow> insort_by c1 x ys = insort_by c2 x ys"
  by (induction ys) simp_all

lemma stable_sort_cong:
  "\<forall>x\<in>set xs. \<forall>y\<in>set xs. c1 x y = c2 x y \<Longrightarrow> stable_sort xs c1 = stable_sort xs c2"
proof (induction xs)
  case Nil
  show ?case by simp
next
  case (Cons x xs)
  have "stable_sort xs c1 = stable_sort xs c2" using Cons by simp
  moreover have "insort_by c1 x (stable_sort xs c2) = insort_by c2 x (stable_sort xs c2)"
    using Cons.prems by (intro insort_by_cong) simp
  ultimately show ?case by (simp add: stable_sort_Cons)
qed

lemma array_sort_defined:
  assumes "\<forall>x\<in>set xs. \<not> undef x"
  shows "array_sort undef xs cmp = stable_sort xs cmp"
  unfolding array_sort_def
  by (rule stable_sort_cong) (use assms in \<open>simp add: sortCompare_def\<close>)

lemma total_preorder_sortCompare:
  assumes tp: "total_preorder cmp"
  shows "total_preorder (sortCompare undef cmp)"
  unfolding total_preorder_def
proof (intro conjI allI impI)
  fix a b
  show "(sortCompare undef cmp a b < 0) = (0 < sortCompare undef cmp b a)"
    using tp_less_flip [OF tp, of a b] by (simp add: sortCompare_def)
next
  fix a b c
  assume ab: "sortCompare undef cmp a b \<le> 0" and bc: "sortCompare undef cmp b c \<le> 0"
  show "sortCompare undef cmp a c \<le> 0"
  proof (cases "undef c")
    case True
    then show ?thesis by (simp add: sortCompare_def)
  next
    case False
    then have "\<not> undef b" using bc by (auto simp: sortCompare_def split: if_splits)
    then have "\<not> undef a" using ab by (auto simp: sortCompare_def split: if_splits)
    then show ?thesis
      using ab bc False \<open>\<not> undef b\<close> tp_trans [OF tp, of a b c] by (simp add: sortCompare_def)
  qed
qed

lemma sorted_array_sort:
  "total_preorder cmp \<Longrightarrow> sorted_by (sortCompare undef cmp) (array_sort undef xs cmp)"
  unfolding array_sort_def by (intro sorted_stable_sort total_preorder_sortCompare)

lemma sorted_sortCompare_split:
  "sorted_by (sortCompare undef cmp) xs \<Longrightarrow>
   xs = filter (\<lambda>x. \<not> undef x) xs @ filter undef xs \<and>
   sorted_by cmp (filter (\<lambda>x. \<not> undef x) xs)"
proof (induction xs)
  case Nil
  show ?case by simp
next
  case (Cons x xs)
  then have later: "\<forall>y\<in>set xs. sortCompare undef cmp x y \<le> 0"
    and IH: "xs = filter (\<lambda>x. \<not> undef x) xs @ filter undef xs"
      "sorted_by cmp (filter (\<lambda>x. \<not> undef x) xs)"
    by simp_all
  show ?case
  proof (cases "undef x")
    case True
    then have "\<forall>y\<in>set xs. undef y"
      using later by (auto simp: sortCompare_def split: if_splits)
    then have "filter (\<lambda>x. \<not> undef x) xs = []" "filter undef xs = xs"
      by (simp_all add: filter_empty_conv filter_id_conv)
    then show ?thesis using True by simp
  next
    case False
    have "\<forall>y\<in>set (filter (\<lambda>x. \<not> undef x) xs). cmp x y \<le> 0"
      using later False by (auto simp: sortCompare_def split: if_splits)
    then show ?thesis using False IH by simp
  qed
qed

subsection \<open>What the selection returns\<close>

lemma len_elements: "len iterable = Some l \<Longrightarrow> l = length (elements iterable)"
  by (cases iterable) simp_all

lemma nsmallest_full_sort:
  "0 < n \<Longrightarrow> int (length xs) \<le> n \<Longrightarrow>
   nsmallest undef n (Array xs) cmp = Inr (array_sort undef xs cmp)"
  by (simp add: nsmallest_def)

lemma nsmallest_eq_sorted_prefix:
  assumes tp: "total_preorder cmp"
    and ok: "(\<forall>x\<in>set (elements iterable). \<not> undef x) \<or> len iterable = None \<or>
             n < int (length (elements iterable))"
  shows "nsmallest undef n iterable cmp = Inr (take (nat n) (stable_sort (elements iterable) cmp))"
proof -
  let ?xs = "elements iterable"
  let ?hc = "heapComparator cmp"
  consider "n \<le> 0"
    | "0 < n" "case len iterable of Some length' \<Rightarrow> n \<ge> int length' | None \<Rightarrow> False"
    | "0 < n" "\<not> (case len iterable of Some length' \<Rightarrow> n \<ge> int length' | None \<Rightarrow> False)" "n = 1"
    | "1 < n" "\<not> (case len iterable of Some length' \<Rightarrow> n \<ge> int length' | None \<Rightarrow> False)"
    by linarith
  then show ?thesis
  proof cases
    case 1
    then show ?thesis by (simp add: nsmallest_def)
  next
    case 2
    then obtain l where l: "len iterable = Some l" "int l \<le> n"
      by (cases "len iterable") simp_all
    then have "\<forall>x\<in>set ?xs. \<not> undef x" using ok len_elements [OF l(1)] by auto
    then show ?thesis using 2 by (simp add: nsmallest_def array_sort_defined)
  next
    case 3
    show ?thesis
    proof (cases ?xs)
      case Nil
      then show ?thesis using 3 by (simp add: nsmallest_def array_sort_def stable_sort_def)
    next
      case (Cons v it)
      have "[scan_min cmp v it] = take 1 (stable_sort ([v] @ it) cmp)"
        by (rule scan_min_correct [OF tp]) (simp_all add: stable_sort_Cons)
      moreover have "\<not> (case len iterable of Some length' \<Rightarrow> 1 \<ge> int length' | None \<Rightarrow> False)"
        using 3(2) unfolding 3(3) .
      ultimately show ?thesis using Cons unfolding 3(3) by (simp add: nsmallest_def)
    qed
  next
    case 4
    let ?k = "min (nat n) (length ?xs)"
    let ?seeded = "enumerate_from 0 (take (nat n) ?xs)"
    have seed: "seed n ?xs 0 [] = (?seeded, int ?k, drop (nat n) ?xs)"
      by (simp add: seed_eq)
    show ?thesis
    proof (cases "?xs = []")
      case True
      then show ?thesis using 4 by (simp add: nsmallest_def)
    next
      case False
      then have kpos: "0 < ?k" using 4 by simp
      let ?r = "heapify ?seeded (negated ?hc)"
      have tph: "total_preorder ?hc" by (rule total_preorder_heapComparator [OF tp])
      have len_r: "length ?r = ?k" by simp
      have r_ne: "?r \<noteq> []" using kpos len_r by (metis length_greater_0_conv)
      have inv: "heap_inv (negated ?hc) ?r"
        by (rule heap_inv_heapify [OF total_preorder_negated [OF tph]])
      have "mset (map snd ?r) = mset (map snd ?seeded)" by (metis mset_heapify mset_map)
      then have dist: "distinct (map snd ?r)"
        using distinct_enumerate_from [of 0 "take (nat n) ?xs"] by (metis mset_eq_imp_distinct_iff)
      have "set ?r = set ?seeded" by (metis mset_heapify set_mset_mset)
      then have bound: "\<forall>p\<in>set ?r. snd p < int ?k"
        using snd_enumerate_from [of _ 0 "take (nat n) ?xs"] by (auto simp: min.commute)
      have "stable_sort ?r ?hc = stable_sort ?seeded ?hc"
        by (rule stable_sort_cong_mset [OF tph _ strict_on_distinct [OF dist]]) simp
      then have spec: "map fst (stable_sort ?r ?hc)
                       = take (length ?r) (stable_sort (take (nat n) ?xs) cmp)"
        by (simp add: map_fst_stable_sort_enumerate [OF tp])
      obtain result' where res: "scan_smallest cmp (drop (nat n) ?xs) ?r (fst (?r ! 0)) (int ?k) = Inr result'"
        and fin: "map fst (stable_sort result' ?hc)
                  = take (length ?r) (stable_sort (take (nat n) ?xs @ drop (nat n) ?xs) cmp)"
        using scan_smallest_correct [OF tp r_ne inv dist bound refl _ spec, of "drop (nat n) ?xs"]
        by auto
      have final: "take (length ?r) (stable_sort ?xs cmp) = take (nat n) (stable_sort ?xs cmp)"
        by (simp add: min_def)
      have c: "\<not> n \<le> 0" "n \<noteq> 1" "int ?k \<noteq> 0" using 4 kpos by linarith+
      have "nsmallest undef n iterable cmp = Inr (map fst (stable_sort result' ?hc))"
        by (simp only: nsmallest_def c 4(2) seed if_False prod.case Let_def
            top_of_nonempty [OF r_ne] sum.case res array_sort_pairs)
      then show ?thesis using fin final by (simp del: length_heapify)
    qed
  qed
qed

subsection \<open>Stability and the full-sort path\<close>

lemma tp_eq_trans:
  assumes tp: "total_preorder cmp" and "cmp a b = 0" "cmp b c = 0"
  shows "cmp a c = 0"
proof -
  have "cmp a c \<le> 0" using tp_trans [OF tp, of a b c] assms by simp
  moreover have "cmp c a \<le> 0"
    using tp_trans [OF tp, of c b a] tp_eq_sym [OF tp assms(2)] tp_eq_sym [OF tp assms(3)] by simp
  ultimately show ?thesis by (rule tp_antisym [OF tp])
qed

lemma filter_insort_by:
  assumes tp: "total_preorder cmp"
  shows "filter (\<lambda>y. cmp y x = 0) (insort_by cmp a ys) =
           (if cmp a x = 0 then a # filter (\<lambda>y. cmp y x = 0) ys else filter (\<lambda>y. cmp y x = 0) ys)"
proof (induction ys)
  case Nil
  show ?case by simp
next
  case (Cons y ys)
  show ?case
  proof (cases "cmp a y \<le> 0")
    case True
    then show ?thesis by simp
  next
    case False
    have "\<not> (cmp a x = 0 \<and> cmp y x = 0)"
    proof
      assume "cmp a x = 0 \<and> cmp y x = 0"
      then have "cmp a y = 0"
        using tp_eq_trans [OF tp, of a x y] tp_eq_sym [OF tp, of y x] by simp
      then show False using False by simp
    qed
    then show ?thesis using False Cons.IH by auto
  qed
qed

lemma filter_stable_sort:
  assumes tp: "total_preorder cmp"
  shows "filter (\<lambda>y. cmp y x = 0) (stable_sort xs cmp) = filter (\<lambda>y. cmp y x = 0) xs"
  by (induction xs) (simp_all add: stable_sort_Cons filter_insort_by [OF tp])

lemma keeps_order_take_sort:
  assumes tp: "total_preorder cmp"
  shows "keeps_order cmp xs (take k (stable_sort xs cmp))"
  unfolding keeps_order_def
proof
  fix x
  let ?P = "\<lambda>y. cmp y x = 0"
  have "prefix (filter ?P (take k (stable_sort xs cmp))) (filter ?P (stable_sort xs cmp))"
    by (intro filter_mono_prefix take_is_prefix)
  then have "prefix (filter ?P (take k (stable_sort xs cmp))) (filter ?P xs)"
    by (simp add: filter_stable_sort [OF tp])
  then show "subseq (filter ?P (take k (stable_sort xs cmp))) (filter ?P xs)"
    by (rule prefix_imp_subseq)
qed

lemma total_preorder_key: "total_preorder (\<lambda>a b. (key a :: int) - key b)"
  by (auto simp: total_preorder_def)

lemma total_preorder_default:
  "total_preorder (defaultComparator ((<) :: ('a::linorder) \<Rightarrow> 'a \<Rightarrow> bool))"
  by (auto simp: total_preorder_def defaultComparator_def)

lemma total_preorder_by_value_or_zero: "total_preorder by_value_or_zero"
  by (auto simp: total_preorder_def by_value_or_zero_def)

lemma sorted_by_negated_rev:
  assumes tp: "total_preorder cmp"
  shows "sorted_by (negated cmp) xs \<Longrightarrow> sorted_by cmp (rev xs)"
  unfolding sorted_by_def sorted_wrt_rev
  by (simp add: negated_le_iff [OF tp])

lemma nlargest_full_sort:
  "0 < n \<Longrightarrow> int (length xs) \<le> n \<Longrightarrow>
   nlargest undef n (Array xs) cmp = Inr (array_sort undef xs (negated cmp))"
  by (simp add: nlargest_def)

lemma selection_empty:
  "n \<le> 0 \<or> elements iterable = [] \<Longrightarrow>
   nsmallest undef n iterable cmp = Inr [] \<and> nlargest undef n iterable cmp = Inr []"
  by (cases iterable) (auto simp: nsmallest_def nlargest_def array_sort_def)

section \<open>What the read-only methods write\<close>

lemma new_array_frame:
  assumes "wf_store s" and "new_array xs s = (a, s')"
  shows "arrays s a = None \<and> arrays s' a = Some xs \<and> (\<forall>b. b \<noteq> a \<longrightarrow> arrays s' b = arrays s b) \<and>
         wf_store s'"
  using assms by (auto simp: new_array_def wf_store_def)

lemma sort_in_place_frame:
  "wf_store s \<Longrightarrow> arrays s a \<noteq> None \<Longrightarrow>
   (\<forall>b. b \<noteq> a \<longrightarrow> arrays (sort_in_place undef a cmp s) b = arrays s b) \<and>
   arrays (sort_in_place undef a cmp s) a = Some (array_sort undef (contents s a) cmp) \<and>
   wf_store (sort_in_place undef a cmp s)"
  by (auto simp: sort_in_place_def wf_store_def)

lemma Heap_sort_st_frame:
  assumes wf: "wf_store s" and a: "arrays s this_data = Some xs"
    and r: "Heap_sort_st undef this_data cmp s = (out, s')"
  shows "arrays s out = None \<and> arrays s' out = Some (array_sort undef xs cmp) \<and>
         (\<forall>b. b \<noteq> out \<longrightarrow> arrays s' b = arrays s b)"
proof -
  obtain s1 where n: "new_array xs s = (out, s1)" and s': "s' = sort_in_place undef out cmp s1"
    using r a by (auto simp: Heap_sort_st_def contents_def split: prod.splits)
  from new_array_frame [OF wf n] sort_in_place_frame [of s1 out undef cmp]
  show ?thesis by (simp add: s' contents_def)
qed

lemma nsmallest_st_frame:
  assumes wf: "wf_store s" and a: "arrays s b \<noteq> None"
  shows "arrays (snd (nsmallest_st undef n iterable cmp s)) b = arrays s b"
proof -
  have "b < next_addr s" using wf a unfolding wf_store_def by (meson not_le)
  then show ?thesis
    by (auto simp: nsmallest_st_def new_array_def sort_in_place_def Let_def split: sum.splits)
qed

lemma nlargest_st_frame:
  assumes wf: "wf_store s" and a: "arrays s b \<noteq> None"
  shows "arrays (snd (nlargest_st undef n iterable cmp s)) b = arrays s b"
proof -
  have "b < next_addr s" using wf a unfolding wf_store_def by (meson not_le)
  then show ?thesis
    by (auto simp: nlargest_st_def new_array_def sort_in_place_def Let_def split: sum.splits)
qed

lemma nsmallest_st_contents:
  "wf_store s \<Longrightarrow>
   (case nsmallest_st undef n iterable cmp s of
      (Inr out, s') \<Rightarrow> Inr (contents s' out) = nsmallest undef n (Array (contents s iterable)) cmp
    | (Inl e, s') \<Rightarrow> Inl e = nsmallest undef n (Array (contents s iterable)) cmp)"
  by (auto simp: nsmallest_st_def nsmallest_def new_array_def sort_in_place_def contents_def
      wf_store_def Let_def split: sum.splits)

lemma nlargest_st_contents:
  "wf_store s \<Longrightarrow>
   (case nlargest_st undef n iterable cmp s of
      (Inr out, s') \<Rightarrow> Inr (contents s' out) = nlargest undef n (Array (contents s iterable)) cmp
    | (Inl e, s') \<Rightarrow> Inl e = nlargest undef n (Array (contents s iterable)) cmp)"
  by (auto simp: nlargest_st_def nlargest_def new_array_def sort_in_place_def contents_def
      wf_store_def Let_def split: sum.splits)

section \<open>The claims\<close>

text \<open>
  C1. For a total-preorder comparator and a heap seeded with any arrangement \<open>ys\<close> of a
  finite multiset, through the constructor or by pushing the elements one after the other,
  popping until the heap is empty returns exactly that multiset, in non-decreasing
  comparator order.
\<close>

theorem pop_all_sorted:
  assumes tp: "total_preorder cmp" and perm: "mset ys = mset xs"
    and h: "h = Heap_new (Some ys) cmp \<or> h = foldl Heap_push (Heap_new None cmp) ys"
  shows "mset (popAll h) = mset xs \<and> sorted_by cmp (popAll h)"
proof -
  have "heap_inv cmp (data h) \<and> comparator h = cmp \<and> mset (data h) = mset ys"
    using h
  proof
    assume "h = Heap_new (Some ys) cmp"
    then show ?thesis using Heap_new_inv [OF tp, of "Some ys"]
      by (simp add: Heap_new_def Heap_heapify_def)
  next
    assume "h = foldl Heap_push (Heap_new None cmp) ys"
    then show ?thesis
      using pushes_inv [of "Heap_new None cmp" ys] Heap_new_inv [OF tp, of None] tp
      by (simp add: Heap_new_def)
  qed
  then show ?thesis using sorted_by_popAll [of h] mset_popAll [of h] tp perm by simp
qed

theorem pop_all_sorted_witness:
  "total_preorder (\<lambda>a b :: int. a - b) \<and> mset [4, 2, 7, 1, 9 :: int] = mset [1, 2, 4, 7, 9] \<and>
   mset (popAll (Heap_new (Some [4, 2, 7, 1, 9]) (\<lambda>a b :: int. a - b))) = mset [1, 2, 4, 7, 9] \<and>
   sorted_by (\<lambda>a b. a - b) (popAll (Heap_new (Some [4, 2, 7, 1, 9]) (\<lambda>a b :: int. a - b)))"
proof -
  have p: "mset [4, 2, 7, 1, 9 :: int] = mset [1, 2, 4, 7, 9]" by simp
  from pop_all_sorted [OF total_preorder_minus p, of "Heap_new (Some [4, 2, 7, 1, 9]) (\<lambda>a b. a - b)"]
  show ?thesis using total_preorder_minus p by blast
qed

text \<open>
  C2. For a total-preorder comparator, after any finite run of \<^verbatim>\<open>push\<close>, \<^verbatim>\<open>pop\<close>,
  \<^verbatim>\<open>replace\<close>, \<^verbatim>\<open>pushPop\<close> and \<^verbatim>\<open>heapify\<close> calls on an instance made by the
  constructor (empty, or from a sequence; \<^verbatim>\<open>clone\<close>, \<^verbatim>\<open>heapq.from\<close> and \<^verbatim>\<open>heapq.of\<close> go
  through it), the backing array satisfies the heap invariant: every node compares
  \<open>\<le> 0\<close> against each child that is in range.
\<close>

theorem heap_invariant_preserved:
  assumes "total_preorder cmp"
  shows "heap_inv cmp (data (run_ops (Heap_new iterable cmp) ops))"
  using run_ops_inv [of "Heap_new iterable cmp" ops] Heap_new_inv [OF assms, of iterable] assms
  by simp

theorem heap_invariant_preserved_witness:
  "total_preorder (\<lambda>a b :: int. a - b) \<and>
   heap_inv (\<lambda>a b. a - b)
     (data (run_ops (Heap_new (Some [4, 2, 7, 1, 9]) (\<lambda>a b :: int. a - b))
             [Push 3, Pop, Replace 5, PushPop 0, PushPop 8, Heapify (Some [6, 0])]))"
  using heap_invariant_preserved [OF total_preorder_minus, of "Some [4, 2, 7, 1, 9]"
      "[Push 3, Pop, Replace 5, PushPop 0, PushPop 8, Heapify (Some [6, 0])]"]
    total_preorder_minus
  by simp

text \<open>
  C3. The claim: \<^verbatim>\<open>nlargest(n)\<close> is stable, elements that compare equal come out in
  their original order. The code at an input where it is not:
  \<^verbatim>\<open>nlargest(2)\<close> over three records keyed
  \<open>1, 1, 0\<close> takes the bounded-heap path and returns the two records keyed \<open>1\<close> with
  the later one first; \<^verbatim>\<open>nlargest(3)\<close> over the same records takes the full-sort path
  and returns them in their original order, as \<^verbatim>\<open>nsmallest(2)\<close> does with two
  records that tie. The instance method reverses ties in the same way against its
  backing array: the constructor leaves the records in the order \<open>c, b, a\<close>, and
  \<^verbatim>\<open>nlargest(2)\<close> returns \<open>a\<close> before \<open>b\<close>. None of these records is
  \<^verbatim>\<open>undefined\<close>.
\<close>

theorem nlargest_reverses_ties:
  "nlargest (\<lambda>_. False) 2 (Array [(1, ''a''), (1, ''b''), (0, ''c'')]) by_key = Inr [(1, ''b''), (1, ''a'')] \<and>
   \<not> subseq (filter (\<lambda>y. by_key y (1, ''a'') = 0) [(1, ''b''), (1, ''a'')])
             (filter (\<lambda>y. by_key y (1, ''a'') = 0) [(1, ''a''), (1, ''b''), (0, ''c'')]) \<and>
   nlargest (\<lambda>_. False) 3 (Array [(1, ''a''), (1, ''b''), (0, ''c'')]) by_key
     = Inr [(1, ''a''), (1, ''b''), (0, ''c'')] \<and>
   nsmallest (\<lambda>_. False) 2 (Array [(1, ''a''), (1, ''b''), (2, ''c'')]) by_key
     = Inr [(1, ''a''), (1, ''b'')] \<and>
   data (Heap_new (Some [(1, ''a''), (1, ''b''), (0, ''c'')]) by_key)
     = [(0, ''c''), (1, ''b''), (1, ''a'')] \<and>
   Heap_nlargest (\<lambda>_. False) (Heap_new (Some [(1, ''a''), (1, ''b''), (0, ''c'')]) by_key) 2
     = Inr [(1, ''a''), (1, ''b'')]"
  by code_simp




text \<open>
  C5. \<^verbatim>\<open>pushPop(x)\<close> on a heap that satisfies the invariant, under a total-preorder
  comparator: when the heap is empty or \<open>x\<close> compares strictly less than the root, it
  returns \<open>x\<close> and leaves the instance as it was; otherwise it returns the previous
  root, and the heap holds \<open>x\<close> in place of that root and satisfies the invariant
  again. In both cases the value returned compares \<open>\<le> 0\<close> against every element that
  remains.
\<close>

theorem pushPop_contract:
  assumes tp: "total_preorder (comparator h)" and inv: "heap_inv (comparator h) (data h)"
  shows "(Heap_isEmpty h \<or> comparator h x (data h ! 0) < 0 \<longrightarrow> Heap_pushPop h x = (Some x, h)) \<and>
         (\<not> (Heap_isEmpty h \<or> comparator h x (data h ! 0) < 0) \<longrightarrow>
            fst (Heap_pushPop h x) = Some (data h ! 0) \<and>
            mset (data (snd (Heap_pushPop h x))) = mset (data h) - {#data h ! 0#} + {#x#} \<and>
            heap_inv (comparator h) (data (snd (Heap_pushPop h x)))) \<and>
         (\<forall>r. fst (Heap_pushPop h x) = Some r \<longrightarrow>
            (\<forall>y \<in> set (data (snd (Heap_pushPop h x))). comparator h r y \<le> 0))"
proof -
  let ?cmp = "comparator h"
  have e: "Heap_isEmpty h \<longleftrightarrow> data h = []"
    by (simp add: Heap_isEmpty_def Heap_size_def)
  have root: "?cmp (data h ! 0) y \<le> 0" if "y \<in> set (data h)" for y
    using that heap_inv_root_le [OF tp inv] by (auto simp: in_set_conv_nth)
  show ?thesis
  proof (cases "Heap_isEmpty h \<or> ?cmp x (data h ! 0) < 0")
    case True
    then have res: "Heap_pushPop h x = (Some x, h)" by (simp add: Heap_pushPop_def)
    have "?cmp x y \<le> 0" if "y \<in> set (data h)" for y
    proof -
      from that True have "?cmp x (data h ! 0) \<le> 0" by (auto simp: e)
      from tp_trans [OF tp this root [OF that]] show ?thesis .
    qed
    then show ?thesis using True res by simp
  next
    case False
    then have ne: "data h \<noteq> []" by (simp add: e)
    let ?d = "siftDown ((data h)[0 := x]) 0 (length (data h)) ?cmp"
    have res: "Heap_pushPop h x = (Some (data h ! 0), h\<lparr>data := ?d\<rparr>)"
      using False by (simp add: Heap_pushPop_def Let_def)
    have m: "mset ?d = mset (data h) - {#data h ! 0#} + {#x#}"
      by (rule mset_sift_root [OF ne])
    have i: "heap_inv ?cmp ?d" by (rule heap_inv_sift_root [OF tp inv ne])
    have "?cmp (data h ! 0) y \<le> 0" if "y \<in> set ?d" for y
    proof -
      from that have "y \<in># mset (data h) - {#data h ! 0#} + {#x#}"
        using m by (metis set_mset_mset)
      then have "y = x \<or> y \<in> set (data h)"
        by (auto dest: in_diffD)
      moreover have "?cmp (data h ! 0) x \<le> 0"
        using False tp_flip [OF tp, of x "data h ! 0"] by simp
      ultimately show ?thesis using root by blast
    qed
    then show ?thesis using False res m i by simp
  qed
qed

theorem pushPop_contract_witness:
  "total_preorder (\<lambda>a b :: int. a - b) \<and> heap_inv (\<lambda>a b :: int. a - b) [3, 5, 8] \<and>
   Heap_pushPop \<lparr>data = [3, 5, 8], comparator = (\<lambda>a b :: int. a - b)\<rparr> 1
     = (Some 1, \<lparr>data = [3, 5, 8], comparator = (\<lambda>a b :: int. a - b)\<rparr>) \<and>
   fst (Heap_pushPop \<lparr>data = [3, 5, 8], comparator = (\<lambda>a b :: int. a - b)\<rparr> 4) = Some 3"
  using pushPop_contract [of "\<lparr>data = [3, 5, 8], comparator = (\<lambda>a b :: int. a - b)\<rparr>" 1]
    pushPop_contract [of "\<lparr>data = [3, 5, 8], comparator = (\<lambda>a b :: int. a - b)\<rparr>" 4]
    total_preorder_minus heap_inv_358
  by (simp add: Heap_isEmpty_def Heap_size_def)

text \<open>
  C6, as stated: \<^verbatim>\<open>heapq.heapPushPop\<close> and the instance method \<^verbatim>\<open>pushPop\<close> return
  the same value and leave the same array, also when \<open>x\<close> compares equal to the root.
  They do not always: the instance method keeps \<open>x\<close> out only when
  \<open>cmp x root < 0\<close>, the facade swaps \<open>x\<close> in only when \<open>cmp root x < 0\<close>. At the
  input below \<open>x\<close> ties with the root and is another record: the instance method
  returns the old root and installs \<open>x\<close>, the facade returns \<open>x\<close> and leaves the
  array alone.
\<close>

theorem heapPushPop_differs_on_tie:
  "total_preorder by_key \<and> heap_inv by_key [(1, ''a'')] \<and>
   by_key (1, ''b'') ([(1, ''a'')] ! 0) = 0 \<and>
   heapPushPop [(1, ''a'')] (1, ''b'') by_key
     \<noteq> (fst (Heap_pushPop \<lparr>data = [(1, ''a'')], comparator = by_key\<rparr> (1, ''b'')),
         data (snd (Heap_pushPop \<lparr>data = [(1, ''a'')], comparator = by_key\<rparr> (1, ''b'')))) \<and>
   heapPushPop [(1, ''a'')] (1, ''b'') by_key = (Some (1, ''b''), [(1, ''a'')]) \<and>
   fst (Heap_pushPop \<lparr>data = [(1, ''a'')], comparator = by_key\<rparr> (1, ''b'')) = Some (1, ''a'') \<and>
   data (snd (Heap_pushPop \<lparr>data = [(1, ''a'')], comparator = by_key\<rparr> (1, ''b''))) = [(1, ''b'')]"
  by (simp add: total_preorder_by_key heapPushPop_def Heap_pushPop_def Heap_isEmpty_def
      Heap_size_def by_key_def siftDown_def siftDown_loop.simps smallestIndex_def)

text \<open>
  C6, amended: the two agree, in the value returned and in the array left behind, whenever
  the array is empty or exactly one of \<open>cmp x root < 0\<close> and \<open>cmp root x < 0\<close>
  holds; for a comparator whose sign flips with its arguments that is every \<open>x\<close> that
  does not compare equal to the root. When the array is not empty and neither holds
  (\<open>x\<close> ties with the root), the facade returns \<open>x\<close> and leaves the array as it
  was, and the instance method returns the old root, writes \<open>x\<close> at index 0 and sifts
  down from there.
\<close>

theorem heapPushPop_agrees_off_ties:
  "(arr = [] \<or> (cmp x (arr ! 0) < 0) \<noteq> (cmp (arr ! 0) x < 0) \<or>
      (\<forall>a b. (cmp a b < 0) = (0 < cmp b a)) \<and> cmp x (arr ! 0) \<noteq> 0 \<longrightarrow>
    heapPushPop arr x cmp =
      (fst (Heap_pushPop \<lparr>data = arr, comparator = cmp\<rparr> x),
       data (snd (Heap_pushPop \<lparr>data = arr, comparator = cmp\<rparr> x)))) \<and>
   (arr \<noteq> [] \<and> \<not> cmp x (arr ! 0) < 0 \<and> \<not> cmp (arr ! 0) x < 0 \<longrightarrow>
    heapPushPop arr x cmp = (Some x, arr) \<and>
    Heap_pushPop \<lparr>data = arr, comparator = cmp\<rparr> x =
      (Some (arr ! 0),
       \<lparr>data = siftDown (arr[0 := x]) 0 (length arr) cmp, comparator = cmp\<rparr>))"
proof (intro conjI impI)
  assume h: "arr = [] \<or> (cmp x (arr ! 0) < 0) \<noteq> (cmp (arr ! 0) x < 0) \<or>
      (\<forall>a b. (cmp a b < 0) = (0 < cmp b a)) \<and> cmp x (arr ! 0) \<noteq> 0"
  have "(cmp x (arr ! 0) < 0) \<noteq> (cmp (arr ! 0) x < 0)"
    if flip: "\<forall>a b. (cmp a b < 0) = (0 < cmp b a)" and ne: "cmp x (arr ! 0) \<noteq> 0"
  proof -
    from flip have "(cmp (arr ! 0) x < 0) = (0 < cmp x (arr ! 0))" by blast
    then show ?thesis using ne by linarith
  qed
  with h have "arr = [] \<or> (cmp x (arr ! 0) < 0) \<noteq> (cmp (arr ! 0) x < 0)" by blast
  then show "heapPushPop arr x cmp =
      (fst (Heap_pushPop \<lparr>data = arr, comparator = cmp\<rparr> x),
       data (snd (Heap_pushPop \<lparr>data = arr, comparator = cmp\<rparr> x)))"
    by (auto simp: heapPushPop_def Heap_pushPop_def Heap_isEmpty_def Heap_size_def Let_def)
next
  assume "arr \<noteq> [] \<and> \<not> cmp x (arr ! 0) < 0 \<and> \<not> cmp (arr ! 0) x < 0"
  then show "heapPushPop arr x cmp = (Some x, arr)"
    by (simp add: heapPushPop_def)
next
  assume "arr \<noteq> [] \<and> \<not> cmp x (arr ! 0) < 0 \<and> \<not> cmp (arr ! 0) x < 0"
  then show "Heap_pushPop \<lparr>data = arr, comparator = cmp\<rparr> x =
      (Some (arr ! 0),
       \<lparr>data = siftDown (arr[0 := x]) 0 (length arr) cmp, comparator = cmp\<rparr>)"
    by (simp add: Heap_pushPop_def Heap_isEmpty_def Heap_size_def Let_def)
qed

theorem heapPushPop_agrees_off_ties_witness:
  "(by_key (4, ''x'') ([(3, ''a''), (5, ''b''), (8, ''c'')] ! 0) < 0)
     \<noteq> (by_key ([(3, ''a''), (5, ''b''), (8, ''c'')] ! 0) (4, ''x'') < 0) \<and>
   heapPushPop [(3, ''a''), (5, ''b''), (8, ''c'')] (4, ''x'') by_key =
     (fst (Heap_pushPop \<lparr>data = [(3, ''a''), (5, ''b''), (8, ''c'')], comparator = by_key\<rparr> (4, ''x'')),
      data (snd (Heap_pushPop \<lparr>data = [(3, ''a''), (5, ''b''), (8, ''c'')], comparator = by_key\<rparr> (4, ''x'')))) \<and>
   [(3, ''a''), (5, ''b''), (8, ''c'')] \<noteq> [] \<and>
   \<not> by_key (3, ''x'') ([(3, ''a''), (5, ''b''), (8, ''c'')] ! 0) < 0 \<and>
   \<not> by_key ([(3, ''a''), (5, ''b''), (8, ''c'')] ! 0) (3, ''x'') < 0 \<and>
   heapPushPop [(3, ''a''), (5, ''b''), (8, ''c'')] (3, ''x'') by_key
     = (Some (3, ''x''), [(3, ''a''), (5, ''b''), (8, ''c'')]) \<and>
   Heap_pushPop \<lparr>data = [(3, ''a''), (5, ''b''), (8, ''c'')], comparator = by_key\<rparr> (3, ''x'')
     = (Some (3, ''a''), \<lparr>data = [(3, ''x''), (5, ''b''), (8, ''c'')], comparator = by_key\<rparr>)"
proof -
  let ?arr = "[(3, ''a''), (5, ''b''), (8, ''c'')] :: (int \<times> string) list"
  have s: "siftDown (?arr[0 := (3, ''x'')]) 0 (length ?arr) by_key = [(3, ''x''), (5, ''b''), (8, ''c'')]"
    by code_simp
  from heapPushPop_agrees_off_ties [of ?arr by_key "(4, ''x'')"]
  have 1: "heapPushPop ?arr (4, ''x'') by_key =
     (fst (Heap_pushPop \<lparr>data = ?arr, comparator = by_key\<rparr> (4, ''x'')),
      data (snd (Heap_pushPop \<lparr>data = ?arr, comparator = by_key\<rparr> (4, ''x''))))"
    by (simp add: by_key_def)
  from heapPushPop_agrees_off_ties [of ?arr by_key "(3, ''x'')"]
  have 2: "heapPushPop ?arr (3, ''x'') by_key = (Some (3, ''x''), ?arr) \<and>
    Heap_pushPop \<lparr>data = ?arr, comparator = by_key\<rparr> (3, ''x'') =
      (Some (?arr ! 0),
       \<lparr>data = siftDown (?arr[0 := (3, ''x'')]) 0 (length ?arr) by_key, comparator = by_key\<rparr>)"
    by (simp add: by_key_def)
  show ?thesis using 1 2 s by (simp add: by_key_def)
qed




text \<open>
  C8, as stated: on an empty heap every single-element query, \<^verbatim>\<open>pushPop\<close> among them,
  returns no value. \<^verbatim>\<open>pushPop(5)\<close> on an empty heap returns \<open>5\<close>.
\<close>

theorem pushPop_on_empty_returns_item:
  "Heap_isEmpty (Heap_new None (\<lambda>a b :: int. a - b)) \<and>
   fst (Heap_pushPop (Heap_new None (\<lambda>a b :: int. a - b)) 5) \<noteq> None \<and>
   Heap_pushPop (Heap_new None (\<lambda>a b :: int. a - b)) 5
     = (Some 5, Heap_new None (\<lambda>a b :: int. a - b))"
  by (simp add: Heap_pushPop_def Heap_isEmpty_def Heap_size_def Heap_new_def)

text \<open>
  C8, amended: on an empty heap \<^verbatim>\<open>pop\<close>, \<^verbatim>\<open>replace\<close> and \<^verbatim>\<open>peek\<close> return no
  value, \<^verbatim>\<open>pushPop(x)\<close> returns \<open>x\<close> itself and leaves the heap empty, and
  \<^verbatim>\<open>nsmallest\<close> and \<^verbatim>\<open>nlargest\<close> return the empty array; \<^verbatim>\<open>peek\<close> at an index
  below zero or not below the size returns no value on any heap; the two selection
  functions return the empty array whenever \<open>n \<le> 0\<close> or the input is empty. None of
  them faults.
\<close>

theorem empty_input_total:
  "(Heap_isEmpty h \<longrightarrow>
      Heap_pop h = (None, h) \<and> fst (Heap_replace h x) = None \<and> Heap_pushPop h x = (Some x, h) \<and>
      Heap_peek h i = None \<and> Heap_nsmallest undef h n = Inr [] \<and> Heap_nlargest undef h n = Inr []) \<and>
   (i < 0 \<or> int (Heap_size h) \<le> i \<longrightarrow> Heap_peek h i = None) \<and>
   (n \<le> 0 \<or> elements iterable = [] \<longrightarrow>
      nsmallest undef n iterable cmp = Inr [] \<and> nlargest undef n iterable cmp = Inr [])"
  using selection_empty [of n iterable undef cmp]
    selection_empty [of n "Array (data h)" undef "comparator h"]
  by (auto simp: Heap_isEmpty_def Heap_size_def Heap_pop_def Heap_replace_def replace_Nil
      Heap_pushPop_def Heap_peek_def Heap_nsmallest_def Heap_nlargest_def)

theorem empty_input_total_witness:
  "Heap_isEmpty (Heap_new None (\<lambda>a b :: int. a - b)) \<and>
   Heap_pop (Heap_new None (\<lambda>a b :: int. a - b)) = (None, Heap_new None (\<lambda>a b :: int. a - b)) \<and>
   fst (Heap_replace (Heap_new None (\<lambda>a b :: int. a - b)) 7) = None \<and>
   Heap_peek (Heap_new None (\<lambda>a b :: int. a - b)) 0 = None \<and>
   Heap_nsmallest (\<lambda>_. False) (Heap_new None (\<lambda>a b :: int. a - b)) 3 = Inr [] \<and>
   Heap_peek (Heap_new (Some [4, 2, 7]) (\<lambda>a b :: int. a - b)) (- 1) = None \<and>
   Heap_peek (Heap_new (Some [4, 2, 7]) (\<lambda>a b :: int. a - b)) 3 = None \<and>
   nsmallest (\<lambda>_. False) 0 (Array [5, 3]) (\<lambda>a b :: int. a - b) = Inr [] \<and>
   nlargest (\<lambda>_. False) 3 (Generator []) (\<lambda>a b :: int. a - b) = Inr []"
proof -
  let ?e = "Heap_new None (\<lambda>a b :: int. a - b)"
  let ?h = "Heap_new (Some [4, 2, 7]) (\<lambda>a b :: int. a - b)"
  have e: "Heap_isEmpty ?e" by (simp add: Heap_isEmpty_def Heap_size_def Heap_new_def)
  have s: "Heap_size ?h = 3" by (simp add: Heap_size_def Heap_new_def Heap_heapify_def Let_def)
  show ?thesis
    using e s
      empty_input_total [where h = ?e and x = 7 and i = 0 and n = 3 and undef = "\<lambda>_. False"
        and iterable = "Generator []" and cmp = "\<lambda>a b. a - b"]
      empty_input_total [where h = ?h and x = 7 and i = "- 1" and n = 0 and undef = "\<lambda>_. False"
        and iterable = "Array [5, 3]" and cmp = "\<lambda>a b. a - b"]
      empty_input_total [where h = ?h and x = 7 and i = 3 and n = 0 and undef = "\<lambda>_. False"
        and iterable = "Array [5, 3]" and cmp = "\<lambda>a b. a - b"]
    by simp
qed

text \<open>
  C9. \<^verbatim>\<open>replace(x)\<close> returns the previous root, or no value when the heap was empty;
  it writes \<open>x\<close> at index 0 and sifts down from the root, so the heap then holds its
  former elements with \<open>x\<close> in place of the root and, when it satisfied the heap
  invariant under a total-preorder comparator before, satisfies it again. On an empty heap
  it returns no value and leaves the heap holding exactly \<open>[x]\<close>.
\<close>

theorem replace_returns_root_and_installs:
  "fst (Heap_replace h x) = (if Heap_isEmpty h then None else Some (data h ! 0)) \<and>
   data (snd (Heap_replace h x)) =
     siftDown (if Heap_isEmpty h then [x] else (data h)[0 := x]) 0
       (length (if Heap_isEmpty h then [x] else (data h)[0 := x])) (comparator h) \<and>
   comparator (snd (Heap_replace h x)) = comparator h \<and>
   mset (data (snd (Heap_replace h x))) =
     (if Heap_isEmpty h then {#x#} else mset (data h) - {#data h ! 0#} + {#x#}) \<and>
   (total_preorder (comparator h) \<and> heap_inv (comparator h) (data h) \<longrightarrow>
      heap_inv (comparator h) (data (snd (Heap_replace h x)))) \<and>
   (Heap_isEmpty h \<longrightarrow> Heap_replace h x = (None, h\<lparr>data := [x]\<rparr>))"
proof -
  have e: "Heap_isEmpty h \<longleftrightarrow> data h = []"
    by (simp add: Heap_isEmpty_def Heap_size_def)
  have inv: "heap_inv (comparator h) (data (snd (Heap_replace h x)))"
    if "total_preorder (comparator h)" "heap_inv (comparator h) (data h)"
    using Heap_replace_inv [OF that, of x] by simp
  have "fst (Heap_replace h x) = (if Heap_isEmpty h then None else Some (data h ! 0)) \<and>
   data (snd (Heap_replace h x)) =
     siftDown (if Heap_isEmpty h then [x] else (data h)[0 := x]) 0
       (length (if Heap_isEmpty h then [x] else (data h)[0 := x])) (comparator h) \<and>
   comparator (snd (Heap_replace h x)) = comparator h \<and>
   mset (data (snd (Heap_replace h x))) =
     (if Heap_isEmpty h then {#x#} else mset (data h) - {#data h ! 0#} + {#x#}) \<and>
   (Heap_isEmpty h \<longrightarrow> Heap_replace h x = (None, h\<lparr>data := [x]\<rparr>))"
    using mset_replace [of "data h" x "comparator h"]
    by (auto simp: Heap_replace_def split_beta e replace_fst replace_Nil replace_def Let_def)
  then show ?thesis using inv by blast
qed

theorem replace_returns_root_and_installs_witness:
  "Heap_isEmpty (Heap_new None (\<lambda>a b :: int. a - b)) \<and>
   Heap_replace (Heap_new None (\<lambda>a b :: int. a - b)) 7
     = (None, (Heap_new None (\<lambda>a b :: int. a - b))\<lparr>data := [7]\<rparr>) \<and>
   total_preorder (\<lambda>a b :: int. a - b) \<and>
   heap_inv (\<lambda>a b :: int. a - b) [1, 3, 5, 7] \<and>
   fst (Heap_replace \<lparr>data = [1, 3, 5, 7], comparator = (\<lambda>a b :: int. a - b)\<rparr> 4) = Some 1 \<and>
   data (snd (Heap_replace \<lparr>data = [1, 3, 5, 7], comparator = (\<lambda>a b :: int. a - b)\<rparr> 4))
     = [3, 4, 5, 7] \<and>
   heap_inv (\<lambda>a b :: int. a - b)
     (data (snd (Heap_replace \<lparr>data = [1, 3, 5, 7], comparator = (\<lambda>a b :: int. a - b)\<rparr> 4)))"
proof -
  let ?e = "Heap_new None (\<lambda>a b :: int. a - b)"
  let ?h = "\<lparr>data = [1, 3, 5, 7], comparator = (\<lambda>a b :: int. a - b)\<rparr>"
  note on_empty = replace_returns_root_and_installs [of ?e 7]
  note on_heap = replace_returns_root_and_installs [of ?h 4]
  have e: "Heap_isEmpty ?e" by (simp add: Heap_new_def Heap_isEmpty_def Heap_size_def)
  have ne: "\<not> Heap_isEmpty ?h" by (simp add: Heap_isEmpty_def Heap_size_def)
  have d: "data (snd (Heap_replace ?h 4)) = [3, 4, 5, 7]" by code_simp
  have 1: "Heap_replace ?e 7 = (None, ?e\<lparr>data := [7]\<rparr>)" using on_empty e by blast
  from on_heap have "fst (Heap_replace ?h 4) = (if Heap_isEmpty ?h then None else Some (data ?h ! 0))"
    by blast
  then have 2: "fst (Heap_replace ?h 4) = Some 1" using ne by simp
  from on_heap have "total_preorder (comparator ?h) \<and> heap_inv (comparator ?h) (data ?h) \<longrightarrow>
      heap_inv (comparator ?h) (data (snd (Heap_replace ?h 4)))"
    by blast
  then have 3: "heap_inv (\<lambda>a b :: int. a - b) (data (snd (Heap_replace ?h 4)))"
    using total_preorder_minus heap_inv_1357 by simp
  show ?thesis using e 1 2 3 d total_preorder_minus heap_inv_1357 by blast
qed




end
